theory Spec2Isabelle
  imports Complex_Main
begin

section \<open>Floating-point values\<close>

text \<open>
  Every number of \<^verbatim>\<open>options_pricing_backtest.py\<close> is an IEEE double (a numpy
  \<^verbatim>\<open>float64\<close> read from the price frame, or a Python float). The model keeps the
  three special values, because the program produces them (an undefined RSI or volatility
  is NaN, a division by a zero volatility is an infinity) and never raises on them, and
  takes a finite double to be the real number it stands for. Overflow and the sign of zero
  are not modelled. The rounding of a result to the nearest double is modelled where it
  decides between two values far apart, on the way to a strike, which is rounded to a
  multiple of ten; the other operations are those of the real numbers.
\<close>

datatype fl = Fin real | PInf | NInf | NaN

fun fl_neg :: "fl \<Rightarrow> fl" where
  "fl_neg (Fin a) = Fin (- a)"
| "fl_neg PInf = NInf"
| "fl_neg NInf = PInf"
| "fl_neg NaN = NaN"

fun fl_add :: "fl \<Rightarrow> fl \<Rightarrow> fl" where
  "fl_add (Fin a) (Fin b) = Fin (a + b)"
| "fl_add NaN _ = NaN"
| "fl_add _ NaN = NaN"
| "fl_add PInf NInf = NaN"
| "fl_add NInf PInf = NaN"
| "fl_add PInf _ = PInf"
| "fl_add _ PInf = PInf"
| "fl_add NInf _ = NInf"
| "fl_add _ NInf = NInf"

definition fl_sub :: "fl \<Rightarrow> fl \<Rightarrow> fl" where
  "fl_sub a b = fl_add a (fl_neg b)"

definition signed_inf :: "real \<Rightarrow> fl" where
  "signed_inf s = (if 0 < s then PInf else if s < 0 then NInf else NaN)"

fun fl_mul :: "fl \<Rightarrow> fl \<Rightarrow> fl" where
  "fl_mul (Fin a) (Fin b) = Fin (a * b)"
| "fl_mul NaN _ = NaN"
| "fl_mul _ NaN = NaN"
| "fl_mul (Fin a) PInf = signed_inf a"
| "fl_mul (Fin a) NInf = signed_inf (- a)"
| "fl_mul PInf (Fin b) = signed_inf b"
| "fl_mul NInf (Fin b) = signed_inf (- b)"
| "fl_mul PInf PInf = PInf"
| "fl_mul NInf NInf = PInf"
| "fl_mul PInf NInf = NInf"
| "fl_mul NInf PInf = NInf"

text \<open>
  numpy division: a zero divisor gives an infinity of the sign of the dividend, or NaN for
  \<open>0 / 0\<close>, with a warning and no exception.
\<close>

fun fl_div :: "fl \<Rightarrow> fl \<Rightarrow> fl" where
  "fl_div (Fin a) (Fin b) = (if b = 0 then signed_inf a else Fin (a / b))"
| "fl_div NaN _ = NaN"
| "fl_div _ NaN = NaN"
| "fl_div (Fin a) PInf = Fin 0"
| "fl_div (Fin a) NInf = Fin 0"
| "fl_div PInf (Fin b) = (if 0 \<le> b then PInf else NInf)"
| "fl_div NInf (Fin b) = (if 0 \<le> b then NInf else PInf)"
| "fl_div PInf PInf = NaN"
| "fl_div PInf NInf = NaN"
| "fl_div NInf PInf = NaN"
| "fl_div NInf NInf = NaN"

text \<open>\<^verbatim>\<open>sigma ** 2\<close>\<close>

fun fl_sq :: "fl \<Rightarrow> fl" where
  "fl_sq (Fin a) = Fin (a * a)"
| "fl_sq PInf = PInf"
| "fl_sq NInf = PInf"
| "fl_sq NaN = NaN"

text \<open>\<^verbatim>\<open>np.log\<close>, \<^verbatim>\<open>np.sqrt\<close>, \<^verbatim>\<open>np.exp\<close>\<close>

fun fl_log :: "fl \<Rightarrow> fl" where
  "fl_log (Fin a) = (if 0 < a then Fin (ln a) else if a = 0 then NInf else NaN)"
| "fl_log PInf = PInf"
| "fl_log NInf = NaN"
| "fl_log NaN = NaN"

fun fl_sqrt :: "fl \<Rightarrow> fl" where
  "fl_sqrt (Fin a) = (if 0 \<le> a then Fin (sqrt a) else NaN)"
| "fl_sqrt PInf = PInf"
| "fl_sqrt NInf = NaN"
| "fl_sqrt NaN = NaN"

fun fl_exp :: "fl \<Rightarrow> fl" where
  "fl_exp (Fin a) = Fin (exp a)"
| "fl_exp PInf = PInf"
| "fl_exp NInf = Fin 0"
| "fl_exp NaN = NaN"

text \<open>Comparisons: every comparison with NaN is false.\<close>

fun fl_gt :: "fl \<Rightarrow> fl \<Rightarrow> bool" where
  "fl_gt (Fin a) (Fin b) = (b < a)"
| "fl_gt NaN _ = False"
| "fl_gt _ NaN = False"
| "fl_gt PInf PInf = False"
| "fl_gt PInf _ = True"
| "fl_gt NInf _ = False"
| "fl_gt (Fin a) PInf = False"
| "fl_gt (Fin a) NInf = True"

definition fl_lt :: "fl \<Rightarrow> fl \<Rightarrow> bool" where
  "fl_lt a b = fl_gt b a"

fun fl_eq :: "fl \<Rightarrow> fl \<Rightarrow> bool" where
  "fl_eq NaN _ = False"
| "fl_eq _ NaN = False"
| "fl_eq a b = (a = b)"

text \<open>\<^verbatim>\<open>np.rint\<close>: the nearest integer, with ties to the even one.\<close>

definition rint :: "real \<Rightarrow> int" where
  "rint x =
     (let f = \<lfloor>x\<rfloor> in
      if x - of_int f < 1 / 2 then f
      else if 1 / 2 < x - of_int f then f + 1
      else if even f then f else f + 1)"

text \<open>
  The double nearest to a real number, with ties to the even significand: a significand of
  53 bits, so the doubles next to \<open>x\<close> are \<open>u = 2 ^ (\<lfloor>log 2 \<bar>x\<bar>\<rfloor> - 52)\<close> apart. The
  range of the exponent is not modelled. \<open>fl_double\<close> rounds the result of an operation.
\<close>

definition double :: "real \<Rightarrow> real" where
  "double x =
     (if x = 0 then 0
      else (let u = 2 powr (of_int \<lfloor>log 2 \<bar>x\<bar>\<rfloor> - 52) in of_int (rint (x / u)) * u))"

fun fl_double :: "fl \<Rightarrow> fl" where
  "fl_double (Fin a) = Fin (double a)"
| "fl_double PInf = PInf"
| "fl_double NInf = NInf"
| "fl_double NaN = NaN"

text \<open>
  \<^verbatim>\<open>round(x, ndigits)\<close> on a numpy double is \<^verbatim>\<open>np.round\<close>. With \<open>ndigits \<ge> 0\<close>
  (the credit, two decimals) it multiplies by the power of ten, rounds to the nearest
  integer with \<^verbatim>\<open>rint\<close> and divides; the model does that on the real numbers. With
  \<open>ndigits < 0\<close> (the strike, a multiple of ten) it divides by the power of ten, rounds
  with \<^verbatim>\<open>rint\<close> and multiplies; here the model rounds the quotient and the product to
  doubles.
\<close>

fun fl_round :: "fl \<Rightarrow> int \<Rightarrow> fl" where
  "fl_round (Fin a) nd =
     (if 0 \<le> nd then Fin (of_int (rint (a * 10 ^ nat nd)) / 10 ^ nat nd)
      else Fin (double (of_int (rint (double (a / 10 ^ nat (- nd)))) * 10 ^ nat (- nd))))"
| "fl_round PInf nd = PInf"
| "fl_round NInf nd = NInf"
| "fl_round NaN nd = NaN"

text \<open>
  \<^verbatim>\<open>scipy.stats.norm.cdf(x, 0.0, 1.0)\<close>: the standard normal distribution function,
  here by its power series around 0.
\<close>

definition Phi_term :: "real \<Rightarrow> nat \<Rightarrow> real" where
  "Phi_term x n = (- 1) ^ n * x ^ (2 * n + 1) / (2 ^ n * fact n * real (2 * n + 1))"

definition Phi :: "real \<Rightarrow> real" where
  "Phi x = 1 / 2 + (\<Sum>n. Phi_term x n) / sqrt (2 * pi)"

fun fl_cdf :: "fl \<Rightarrow> fl" where
  "fl_cdf (Fin a) = Fin (Phi a)"
| "fl_cdf PInf = Fin 1"
| "fl_cdf NInf = Fin 0"
| "fl_cdf NaN = NaN"


section \<open>The option pricer\<close>

text \<open>
  The Black-Scholes expressions of the loop bodies of \<^verbatim>\<open>getCallData\<close> and
  \<^verbatim>\<open>getPutData\<close>, for spot \<open>S\<close>, strike \<open>K\<close>, time to expiration \<open>T\<close>,
  rate \<open>r\<close> and volatility \<open>sigma\<close>.
\<close>

definition d1 :: "fl \<Rightarrow> fl \<Rightarrow> fl \<Rightarrow> fl \<Rightarrow> fl \<Rightarrow> fl" where
  "d1 S K T r sigma =
     fl_div (fl_add (fl_log (fl_div S K))
                    (fl_mul (fl_add r (fl_mul (Fin (1 / 2)) (fl_sq sigma))) T))
            (fl_mul sigma (fl_sqrt T))"

definition d2 :: "fl \<Rightarrow> fl \<Rightarrow> fl \<Rightarrow> fl \<Rightarrow> fl \<Rightarrow> fl" where
  "d2 S K T r sigma =
     fl_div (fl_add (fl_log (fl_div S K))
                    (fl_mul (fl_sub r (fl_mul (Fin (1 / 2)) (fl_sq sigma))) T))
            (fl_mul sigma (fl_sqrt T))"

definition call_price :: "fl \<Rightarrow> fl \<Rightarrow> fl \<Rightarrow> fl \<Rightarrow> fl \<Rightarrow> fl" where
  "call_price S K T r sigma =
     fl_sub (fl_mul S (fl_cdf (d1 S K T r sigma)))
            (fl_mul (fl_mul K (fl_exp (fl_mul (fl_neg r) T))) (fl_cdf (d2 S K T r sigma)))"

definition put_price :: "fl \<Rightarrow> fl \<Rightarrow> fl \<Rightarrow> fl \<Rightarrow> fl \<Rightarrow> fl" where
  "put_price S K T r sigma =
     fl_sub (fl_mul (fl_mul K (fl_exp (fl_mul (fl_neg r) T))) (fl_cdf (fl_neg (d2 S K T r sigma))))
            (fl_mul S (fl_cdf (fl_neg (d1 S K T r sigma))))"

section \<open>The pricing object and the spread constructor\<close>

text \<open>
  An \<^verbatim>\<open>Options_Pricing\<close> object holds the time to expiration and the interest rate
  (the ticker only names the download). \<^verbatim>\<open>getPriceData\<close> downloads the price
  history; \<^verbatim>\<open>getRSI\<close> is the 14-period RSI that \<^verbatim>\<open>talib\<close> computes from it and
  \<^verbatim>\<open>getVol\<close> the standard deviation that \<^verbatim>\<open>pandas\<close> computes over a rolling
  window of 252 log returns, times \<open>sqrt 252\<close>, undefined (NaN) on the first 252 bars.
  The three enter the model as data: \<open>df\<close> is the frame with its date index (a day
  number), the \<^verbatim>\<open>Close\<close> column and the \<^verbatim>\<open>RSI\<close> column that
  \<^verbatim>\<open>runBackTest\<close> adds, and \<open>getVol\<close> is the volatility series, which the pricer
  reads by position. The list of three numbers that \<^verbatim>\<open>getCallData\<close> and
  \<^verbatim>\<open>getPutData\<close> return is a triple.
\<close>

record bar =
  date :: int
  Close :: fl
  RSI :: fl

record pricing =
  exp_t :: fl
  intRate :: fl
  df :: "bar list"
  getVol :: "fl list"

datatype error = IndexError | KeyError | ValueError | OutOfBoundsDatetime

text \<open>\<^verbatim>\<open>Options_Pricing.getVol(self)[date]\<close>, \<open>date\<close> a position.\<close>

definition vol_at :: "pricing \<Rightarrow> nat \<Rightarrow> error + fl" where
  "vol_at self i = (if i < length (getVol self) then Inr (getVol self ! i) else Inl IndexError)"

text \<open>
  The strike expressions \<^verbatim>\<open>round(S*1.03,-1)+bot\<close> of \<^verbatim>\<open>getCallData\<close> and
  \<^verbatim>\<open>round(S-(S * .03), -1)-bot\<close> of \<^verbatim>\<open>getPutData\<close>. The literals \<^verbatim>\<open>1.03\<close> and
  \<^verbatim>\<open>.03\<close> are the doubles nearest to 103/100 and to 3/100, and the result of every
  operation is rounded to a double.
\<close>

definition call_strike :: "fl \<Rightarrow> fl \<Rightarrow> fl" where
  "call_strike S bot' =
     fl_double (fl_add (fl_round (fl_double (fl_mul S (Fin (double (103 / 100))))) (- 1)) bot')"

definition put_strike :: "fl \<Rightarrow> fl \<Rightarrow> fl" where
  "put_strike S bot' =
     fl_double (fl_sub (fl_round (fl_double (fl_sub S (fl_double (fl_mul S (Fin (double (3 / 100)))))))
                                 (- 1)) bot')"

text \<open>
  The loop of \<^verbatim>\<open>getCallData\<close> runs while \<open>spread > 0\<close>, from \<open>spread = 2\<close> and
  \<open>bot = 0\<close>; each round appends a strike and a price and sets \<open>bot = 5\<close>.
\<close>

fun call_legs :: "pricing \<Rightarrow> fl \<Rightarrow> nat \<Rightarrow> nat \<Rightarrow> fl \<Rightarrow> fl list \<Rightarrow> fl list \<Rightarrow> error + fl list \<times> fl list" where
  "call_legs self S d 0 bot' strikes calls = Inr (strikes, calls)"
| "call_legs self S d (Suc spread) bot' strikes calls =
     (let K = call_strike S bot';
          T = exp_t self;
          r = intRate self
      in case vol_at self d of
           Inl e \<Rightarrow> Inl e
         | Inr sigma \<Rightarrow>
             call_legs self S d spread (Fin 5) (strikes @ [K]) (calls @ [call_price S K T r sigma]))"

definition getCallData :: "pricing \<Rightarrow> fl \<Rightarrow> nat \<Rightarrow> error + fl \<times> fl \<times> fl" where
  "getCallData self S d =
     (case call_legs self S d 2 (Fin 0) [] [] of
        Inl e \<Rightarrow> Inl e
      | Inr (strikes, calls) \<Rightarrow>
          Inr (fl_round (fl_sub (calls ! 0) (calls ! 1)) 2, strikes ! 0, strikes ! 1))"

fun put_legs :: "pricing \<Rightarrow> fl \<Rightarrow> nat \<Rightarrow> nat \<Rightarrow> fl \<Rightarrow> fl list \<Rightarrow> fl list \<Rightarrow> error + fl list \<times> fl list" where
  "put_legs self S d 0 bot' strikes puts = Inr (strikes, puts)"
| "put_legs self S d (Suc spread) bot' strikes puts =
     (let K = put_strike S bot';
          T = exp_t self;
          r = intRate self
      in case vol_at self d of
           Inl e \<Rightarrow> Inl e
         | Inr sigma \<Rightarrow>
             put_legs self S d spread (Fin 5) (strikes @ [K]) (puts @ [put_price S K T r sigma]))"

definition getPutData :: "pricing \<Rightarrow> fl \<Rightarrow> nat \<Rightarrow> error + fl \<times> fl \<times> fl" where
  "getPutData self S d =
     (case put_legs self S d 2 (Fin 0) [] [] of
        Inl e \<Rightarrow> Inl e
      | Inr (strikes, puts) \<Rightarrow>
          Inr (fl_round (fl_sub (puts ! 0) (puts ! 1)) 2, strikes ! 0, strikes ! 1))"

section \<open>The backtest\<close>

subsection \<open>Dates and the expiration date\<close>

text \<open>
  A date of the index is a day number (days since 1970-01-01, a Thursday), so
  \<^verbatim>\<open>weekday()\<close>, which counts from Monday = 0, is 4 on a Friday. A \<^verbatim>\<open>pandas\<close>
  timestamp counts nanoseconds in 64 bits: its last day, that of \<^verbatim>\<open>Timestamp.max\<close>, is
  11 April 2262, day 106751. \<^verbatim>\<open>+ timedelta(days=n)\<close> adds \<open>n\<close> to the day number, and
  raises \<^verbatim>\<open>OutOfBoundsDatetime\<close> when the sum is past the last day.
\<close>

definition weekday :: "int \<Rightarrow> int" where
  "weekday d = (d + 3) mod 7"

definition Timestamp_max :: int where
  "Timestamp_max = 106751"

text \<open>\<^verbatim>\<open>while getExp.weekday() != 4: getExp += timedelta(days=1)\<close>\<close>

function to_friday :: "int \<Rightarrow> error + int" where
  "to_friday getExp =
     (if weekday getExp \<noteq> 4 then
        (if getExp + 1 \<le> Timestamp_max then to_friday (getExp + 1) else Inl OutOfBoundsDatetime)
      else Inr getExp)"
  by pat_completeness auto
termination
  by (relation "measure (\<lambda>d. nat (Timestamp_max - d))") simp_all

declare to_friday.simps [simp del]

text \<open>
  \<^verbatim>\<open>while getExp not in validDates: getExp += timedelta(days=1)\<close>. The source has no
  bound of its own on this loop: it ends at a date of \<open>validDates\<close>, or with the
  exception at the last day of the timestamps.
\<close>

function to_valid :: "int list \<Rightarrow> int \<Rightarrow> error + int" where
  "to_valid validDates getExp =
     (if getExp \<notin> set validDates then
        (if getExp + 1 \<le> Timestamp_max then to_valid validDates (getExp + 1)
         else Inl OutOfBoundsDatetime)
      else Inr getExp)"
  by pat_completeness auto
termination
  by (relation "measure (\<lambda>(validDates, d). nat (Timestamp_max - d))") simp_all

declare to_valid.simps [simp del]

text \<open>
  \<^verbatim>\<open>getExp = i + timedelta(days=30)\<close> and the two loops: the expiration date of the
  entry date \<open>i\<close>.
\<close>

definition getExp :: "int list \<Rightarrow> int \<Rightarrow> error + int" where
  "getExp validDates i =
     (if i + 30 \<le> Timestamp_max then
        (case to_friday (i + 30) of
           Inl e \<Rightarrow> Inl e
         | Inr friday \<Rightarrow> to_valid validDates friday)
      else Inl OutOfBoundsDatetime)"

subsection \<open>The signal scan\<close>

text \<open>
  The first loop of \<^verbatim>\<open>runBackTest\<close> walks the index; the index of a price history has
  each date once, so \<^verbatim>\<open>df["RSI"][i]\<close> is the RSI of the row of \<open>i\<close>.
\<close>

fun scan :: "bar list \<Rightarrow> int list \<times> int list \<times> int list \<Rightarrow> int list \<times> int list \<times> int list" where
  "scan [] acc = acc"
| "scan (b # bs) (validDates, shortList, longList) =
     (let i = date b in
      if fl_gt (RSI b) (Fin 70) then scan bs (validDates @ [i], shortList @ [i], longList)
      else if fl_lt (RSI b) (Fin 30) then scan bs (validDates @ [i], shortList, longList @ [i])
      else scan bs (validDates @ [i], shortList, longList))"

subsection \<open>Candidates and their expiration prices\<close>

text \<open>\<^verbatim>\<open>df["Close"][i]\<close> for a date \<open>i\<close>: the lookup by label.\<close>

definition Close_at :: "bar list \<Rightarrow> int \<Rightarrow> error + fl" where
  "Close_at frame i =
     (case find (\<lambda>b. date b = i) frame of None \<Rightarrow> Inl KeyError | Some b \<Rightarrow> Inr (Close b))"

text \<open>
  The loop over \<open>shortList\<close> and the loop over \<open>longList\<close> are the same code on
  different lists: they fill (\<open>callDates\<close>, \<open>shortPrice\<close>, \<open>shortExpPrice\<close>) and
  (\<open>putDates\<close>, \<open>longPrice\<close>, \<open>longExpPrice\<close>).
\<close>

fun candidates :: "bar list \<Rightarrow> int list \<Rightarrow> int list \<Rightarrow> int list \<times> fl list \<times> fl list \<Rightarrow>
    error + int list \<times> fl list \<times> fl list" where
  "candidates frame validDates [] acc = Inr acc"
| "candidates frame validDates (i # rest) (dates, prices, expPrices) =
     (case Close_at frame i of
        Inl e \<Rightarrow> Inl e
      | Inr c \<Rightarrow>
          if fl_gt c (Fin 100) \<and> fl_lt c (Fin 200) then
            (case getExp validDates i of
               Inl e \<Rightarrow> Inl e
             | Inr g \<Rightarrow>
                 (case Close_at frame g of
                    Inl e \<Rightarrow> Inl e
                  | Inr x \<Rightarrow>
                      candidates frame validDates rest
                        (dates @ [i], prices @ [c], expPrices @ [x])))
          else candidates frame validDates rest (dates, prices, expPrices))"

subsection \<open>Pricing the first 15 candidates of a side\<close>

text \<open>
  \<^verbatim>\<open>xs.index(i)\<close> for the element \<open>i\<close> that a \<^verbatim>\<open>for\<close> loop has just read at position
  \<open>j\<close> of \<open>xs\<close>: the first position whose element equals \<open>i\<close>, which is \<open>j\<close> at the
  latest (the element at \<open>j\<close> is \<open>i\<close> itself, also when it is NaN).
\<close>

definition index_self :: "fl list \<Rightarrow> nat \<Rightarrow> nat" where
  "index_self xs j = length (takeWhile (\<lambda>x. \<not> fl_eq x (xs ! j)) (take j xs))"

text \<open>\<^verbatim>\<open>validDates.index(d)\<close>\<close>

definition index_date :: "int list \<Rightarrow> int \<Rightarrow> error + nat" where
  "index_date xs d =
     (if d \<in> set xs then Inr (length (takeWhile (\<lambda>x. x \<noteq> d) xs)) else Inl ValueError)"

text \<open>
  The two pricing loops differ in the function they call (\<open>getData\<close> is
  \<^verbatim>\<open>getCallData\<close> or \<^verbatim>\<open>getPutData\<close>); \<open>js\<close> are the positions of
  \<^verbatim>\<open>prices[0:15]\<close> still to visit. A round appends the credit times 100 and the third
  component of the quote.
\<close>

fun price_loop :: "(pricing \<Rightarrow> fl \<Rightarrow> nat \<Rightarrow> error + fl \<times> fl \<times> fl) \<Rightarrow> pricing \<Rightarrow> int list \<Rightarrow>
    int list \<Rightarrow> fl list \<Rightarrow> nat list \<Rightarrow> fl list \<times> fl list \<Rightarrow> error + fl list \<times> fl list" where
  "price_loop getData self validDates dates prices [] acc = Inr acc"
| "price_loop getData self validDates dates prices (j # js) (credits, strikes) =
     (let i = prices ! j;
          w = index_self prices j
      in if \<not> w < length dates then Inl IndexError
         else case index_date validDates (dates ! w) of
                Inl e \<Rightarrow> Inl e
              | Inr Date \<Rightarrow>
                  (case getData self i Date of
                     Inl e \<Rightarrow> Inl e
                   | Inr (credit, strike0, strike1) \<Rightarrow>
                       price_loop getData self validDates dates prices js
                         (credits @ [fl_mul credit (Fin 100)], strikes @ [strike1])))"

definition price_side :: "(pricing \<Rightarrow> fl \<Rightarrow> nat \<Rightarrow> error + fl \<times> fl \<times> fl) \<Rightarrow> pricing \<Rightarrow> int list \<Rightarrow>
    int list \<Rightarrow> fl list \<Rightarrow> error + fl list \<times> fl list" where
  "price_side getData self validDates dates prices =
     price_loop getData self validDates dates prices [0..<length (take 15 prices)] ([], [])"

subsection \<open>Settlement\<close>

text \<open>
  The two settlement loops walk the credit list of a side while they change it;
  \<open>js\<close> are the positions still to visit. They differ in the comparison \<open>otm\<close>:
  \<^verbatim>\<open>shortStrike[k] > shortExpPrice[k]\<close> for the calls,
  \<^verbatim>\<open>longStrike[k] < longExpPrice[k]\<close> for the puts. \<open>strikeWidth\<close> is 500.
\<close>

definition strikeWidth :: fl where
  "strikeWidth = Fin 500"

fun settle_loop :: "(fl \<Rightarrow> fl \<Rightarrow> bool) \<Rightarrow> fl list \<Rightarrow> fl list \<Rightarrow> nat list \<Rightarrow> fl list \<Rightarrow> error + fl list" where
  "settle_loop otm strikes expPrices [] credits = Inr credits"
| "settle_loop otm strikes expPrices (j # js) credits =
     (let k = index_self credits j
      in if \<not> (k < length strikes \<and> k < length expPrices) then Inl IndexError
         else if otm (strikes ! k) (expPrices ! k)
              then settle_loop otm strikes expPrices js credits
              else settle_loop otm strikes expPrices js
                     (credits[k := fl_sub (credits ! k) strikeWidth]))"

definition settle_side :: "(fl \<Rightarrow> fl \<Rightarrow> bool) \<Rightarrow> fl list \<Rightarrow> fl list \<Rightarrow> fl list \<Rightarrow> error + fl list" where
  "settle_side otm strikes expPrices credits =
     settle_loop otm strikes expPrices [0..<length credits] credits"

text \<open>\<^verbatim>\<open>sum(xs)\<close> adds from the left, starting at 0.\<close>

definition fl_sum :: "fl list \<Rightarrow> fl" where
  "fl_sum xs = foldl fl_add (Fin 0) xs"

subsection \<open>\<^verbatim>\<open>runBackTest\<close>\<close>

text \<open>
  The lists of \<^verbatim>\<open>runBackTest\<close> when both settlement loops are done (line 192 of the
  source): one trade per position of a side. \<open>shortCredit\<close> and \<open>longCredit\<close> are the
  lists after settlement; \<open>shortCredit0\<close> and \<open>longCredit0\<close> keep what the pricing
  loops had put there.
\<close>

record book =
  validDates :: "int list"
  callDates :: "int list"
  putDates :: "int list"
  shortPrice :: "fl list"
  longPrice :: "fl list"
  shortStrike :: "fl list"
  longStrike :: "fl list"
  shortExpPrice :: "fl list"
  longExpPrice :: "fl list"
  shortCredit0 :: "fl list"
  longCredit0 :: "fl list"
  shortCredit :: "fl list"
  longCredit :: "fl list"

definition priced_and_settled :: "pricing \<Rightarrow> int list \<Rightarrow> int list \<times> fl list \<times> fl list \<Rightarrow>
    int list \<times> fl list \<times> fl list \<Rightarrow> error + book" where
  "priced_and_settled self vd calls puts =
     (case calls of (cd, sp, se) \<Rightarrow>
      case puts of (pd, lp, le) \<Rightarrow>
      case price_side getCallData self vd cd sp of
        Inl e \<Rightarrow> Inl e
      | Inr (sc, ss) \<Rightarrow>
      case price_side getPutData self vd pd lp of
        Inl e \<Rightarrow> Inl e
      | Inr (lc, ls) \<Rightarrow>
      case settle_side fl_gt ss se sc of
        Inl e \<Rightarrow> Inl e
      | Inr sc' \<Rightarrow>
      case settle_side fl_lt ls le lc of
        Inl e \<Rightarrow> Inl e
      | Inr lc' \<Rightarrow>
          Inr \<lparr>validDates = vd, callDates = cd, putDates = pd, shortPrice = sp, longPrice = lp,
               shortStrike = ss, longStrike = ls, shortExpPrice = se, longExpPrice = le,
               shortCredit0 = sc, longCredit0 = lc, shortCredit = sc', longCredit = lc'\<rparr>)"

definition trades :: "pricing \<Rightarrow> error + book" where
  "trades self =
     (case scan (df self) ([], [], []) of (vd, shortList, longList) \<Rightarrow>
      case candidates (df self) vd shortList ([], [], []) of
        Inl e \<Rightarrow> Inl e
      | Inr calls \<Rightarrow>
      case candidates (df self) vd longList ([], [], []) of
        Inl e \<Rightarrow> Inl e
      | Inr puts \<Rightarrow> priced_and_settled self vd calls puts)"

text \<open>
  The end of \<^verbatim>\<open>runBackTest\<close>: the sum, the two prints that read position 0 and
  position 15 of \<open>callDates\<close> and of \<open>putDates\<close>, and the returned text, of which the
  model keeps the two numbers.
\<close>

record report =
  pnl :: fl
  collateral :: fl

definition report_of :: "book \<Rightarrow> error + report" where
  "report_of b =
     (let total = fl_add (fl_sum (shortCredit b)) (fl_sum (longCredit b))
      in if \<not> (0 < length (callDates b) \<and> 15 < length (callDates b)) then Inl IndexError
         else if \<not> (0 < length (putDates b) \<and> 15 < length (putDates b)) then Inl IndexError
         else Inr \<lparr>pnl = total,
                   collateral = fl_mul (Fin (real (length (take 15 (shortPrice b)) +
                                                   length (take 15 (longPrice b)))))
                                       strikeWidth\<rparr>)"

definition runBackTest :: "pricing \<Rightarrow> error + report" where
  "runBackTest self =
     (case trades self of
        Inl e \<Rightarrow> Inl e
      | Inr b \<Rightarrow> report_of b)"

section \<open>The strikes in closed form\<close>

text \<open>
  The two strikes of a call spread and of a put spread for a finite spot \<open>s\<close>, as the two
  rounds of the loops compute them, with \<open>bot = 0\<close> and with \<open>bot = 5\<close>.
\<close>

definition near_call :: "real \<Rightarrow> real" where
  "near_call s =
     double (double (of_int (rint (double (double (s * double (103 / 100)) / 10))) * 10) + 0)"

definition far_call :: "real \<Rightarrow> real" where
  "far_call s =
     double (double (of_int (rint (double (double (s * double (103 / 100)) / 10))) * 10) + 5)"

definition near_put :: "real \<Rightarrow> real" where
  "near_put s =
     double (double (of_int (rint (double (double (s - double (s * double (3 / 100))) / 10))) * 10) - 0)"

definition far_put :: "real \<Rightarrow> real" where
  "far_put s =
     double (double (of_int (rint (double (double (s - double (s * double (3 / 100))) / 10))) * 10) - 5)"

section \<open>The target Friday in closed form\<close>

text \<open>The first Friday on or after the day \<open>d\<close>.\<close>

definition first_friday :: "int \<Rightarrow> int" where
  "first_friday d = d + (4 - weekday d) mod 7"

section \<open>Settlement, trade by trade\<close>

text \<open>
  What settlement on a trade's own data gives at position \<open>j\<close> of a side: the credit if
  the stored strike and the expiration price compare as out of the money, else the credit
  less the strike width.
\<close>

definition settled_own :: "(fl \<Rightarrow> fl \<Rightarrow> bool) \<Rightarrow> fl list \<Rightarrow> fl list \<Rightarrow> fl list \<Rightarrow> nat \<Rightarrow> fl" where
  "settled_own otm strikes expPrices credits j =
     (if otm (strikes ! j) (expPrices ! j) then credits ! j
      else fl_sub (credits ! j) strikeWidth)"

text \<open>
  Position \<open>j\<close> is shadowed when an earlier trade of the side has an equal credit and is
  out of the money.
\<close>

definition shadowed :: "(fl \<Rightarrow> fl \<Rightarrow> bool) \<Rightarrow> fl list \<Rightarrow> fl list \<Rightarrow> fl list \<Rightarrow> nat \<Rightarrow> bool" where
  "shadowed otm strikes expPrices credits j =
     (\<exists>k\<in>{..<j}. fl_eq (credits ! k) (credits ! j) \<and> otm (strikes ! k) (expPrices ! k))"

definition realized :: "(fl \<Rightarrow> fl \<Rightarrow> bool) \<Rightarrow> fl list \<Rightarrow> fl list \<Rightarrow> fl list \<Rightarrow> nat \<Rightarrow> fl" where
  "realized otm strikes expPrices credits j =
     (if shadowed otm strikes expPrices credits j then credits ! j
      else settled_own otm strikes expPrices credits j)"

text \<open>No credit of the list is another credit of the list less the strike width.\<close>

definition no_offset :: "fl list \<Rightarrow> bool" where
  "no_offset credits = (\<forall>a\<in>set credits. \<forall>b\<in>set credits. \<not> fl_eq (fl_sub a strikeWidth) b)"


section \<open>Qualifying candidates\<close>

text \<open>
  The rows of a frame that qualify as call and as put candidates, a signal and a close in
  the tradable band, and what it takes for the expiration of a row to be found: a date of
  the frame on or after the first Friday 30 days later, and not after the last day of the
  timestamps.
\<close>

definition in_band :: "fl \<Rightarrow> bool" where
  "in_band c = (fl_gt c (Fin 100) \<and> fl_lt c (Fin 200))"

definition call_candidates :: "bar list \<Rightarrow> bar list" where
  "call_candidates frame = filter (\<lambda>b. fl_gt (RSI b) (Fin 70) \<and> in_band (Close b)) frame"

definition put_candidates :: "bar list \<Rightarrow> bar list" where
  "put_candidates frame =
     filter (\<lambda>b. (\<not> fl_gt (RSI b) (Fin 70) \<and> fl_lt (RSI b) (Fin 30)) \<and> in_band (Close b)) frame"

definition resolvable :: "bar list \<Rightarrow> bar \<Rightarrow> bool" where
  "resolvable frame b =
     (\<exists>e\<in>set (map date frame). first_friday (date b + 30) \<le> e \<and> e \<le> Timestamp_max)"

section \<open>Example inputs\<close>

text \<open>Four bars whose RSI values sit on and next to the two thresholds.\<close>

definition rsi_bars :: "bar list" where
  "rsi_bars =
     [\<lparr>date = 0, Close = Fin 150, RSI = Fin 70\<rparr>,
      \<lparr>date = 1, Close = Fin 150, RSI = Fin (700001 / 10000)\<rparr>,
      \<lparr>date = 4, Close = Fin 150, RSI = Fin (299999 / 10000)\<rparr>,
      \<lparr>date = 5, Close = Fin 150, RSI = Fin 30\<rparr>]"

text \<open>
  Histories for the examples. Bar \<open>k\<close> is dated on the \<open>k\<close>-th weekday from Monday,
  5 January 1970; \<open>history closes rsis m n\<close> holds the bars \<open>m\<close> to \<open>n - 1\<close>.
\<close>

definition day :: "nat \<Rightarrow> int" where
  "day k = 4 + 7 * int (k div 5) + int (k mod 5)"

definition history :: "(nat \<Rightarrow> fl) \<Rightarrow> (nat \<Rightarrow> fl) \<Rightarrow> nat \<Rightarrow> nat \<Rightarrow> bar list" where
  "history closes rsis m n = map (\<lambda>k. \<lparr>date = day k, Close = closes k, RSI = rsis k\<rparr>) [m..<n]"

text \<open>
  The annualised sample deviation of a window of 252 log returns whose non-zero returns
  are \<open>rs\<close>: what \<^verbatim>\<open>rolling(window=252).std() * np.sqrt(252)\<close> gives on it.
\<close>

definition window_vol :: "real list \<Rightarrow> real" where
  "window_vol rs = sqrt (252 / 251 * (sum_list (map (\<lambda>r. r * r) rs) - sum_list rs * sum_list rs / 252))"

text \<open>
  A year at 50 and then 149: the volatility is undefined on the first 252 bars and
  \<open>jump_vol\<close> from bar 252 on, as long as the jump is the only move in the window.
  \<open>call_credit_149\<close> is the credit, times 100, of the call spread sold at 149.
\<close>

definition jump_vol :: fl where
  "jump_vol = Fin (window_vol [ln (149 / 50)])"

definition call_credit_149 :: "fl \<Rightarrow> fl" where
  "call_credit_149 sigma =
     fl_mul (fl_round (fl_sub (call_price (Fin 149) (Fin 150) (Fin (1 / 12)) (Fin (1 / 100)) sigma)
                              (call_price (Fin 149) (Fin 155) (Fin (1 / 12)) (Fin (1 / 100)) sigma)) 2)
            (Fin 100)"



text \<open>
  Two call signals, on bars 252 and 253, both at 149; they expire on bar 274 and on bar
  279, where the closes are \<open>x0\<close> and \<open>x1\<close>.
\<close>

definition twice :: "real \<Rightarrow> real \<Rightarrow> pricing" where
  "twice x0 x1 = \<lparr>exp_t = Fin (1 / 12), intRate = Fin (1 / 100),
     df = history (\<lambda>k. if k < 252 then Fin 50 else if k = 274 then Fin x0
                        else if k = 279 then Fin x1 else Fin 149)
                  (\<lambda>k. if k < 14 then NaN else if k = 252 then Fin 75
                        else if k = 253 then Fin 80 else Fin 50) 0 280,
     getVol = replicate 252 NaN @ replicate 22 jump_vol @
              [Fin (window_vol [ln (149 / 50), ln (x0 / 149)])] @
              replicate 4 (Fin (window_vol [ln (149 / 50), ln (x0 / 149), ln (149 / x0)])) @
              [Fin (window_vol [ln (149 / 50), ln (x0 / 149), ln (149 / x0), ln (x1 / 149)])]\<rparr>"

text \<open>
  A history of 40 bars, too short for a volatility: two call signals on bars 14 and 15 and
  a put signal on bar 16, all at 149, all expiring on bar 39 at 130.
\<close>

definition young :: pricing where
  "young = \<lparr>exp_t = Fin (1 / 12), intRate = Fin (1 / 100),
     df = history (\<lambda>k. if k = 39 then Fin 130 else Fin 149)
                  (\<lambda>k. if k < 14 then NaN else if k = 14 then Fin 75 else if k = 15 then Fin 80
                        else if k = 16 then Fin 20 else Fin 50) 0 40,
     getVol = replicate 40 NaN\<rparr>"

text \<open>
  253 equal closes \<open>c\<close>: the volatility on bar 252 is zero. One month to expiration and
  a zero rate.
\<close>

definition flat :: "real \<Rightarrow> pricing" where
  "flat c = \<lparr>exp_t = Fin (1 / 12), intRate = Fin 0,
     df = history (\<lambda>k. Fin c) (\<lambda>k. if k < 14 then NaN else Fin 50) 0 253,
     getVol = replicate 252 NaN @ [Fin 0]\<rparr>"

text \<open>A year at 50 and then 101, priced with no time left to expiration.\<close>

definition expired :: pricing where
  "expired = \<lparr>exp_t = Fin 0, intRate = Fin (1 / 100),
     df = history (\<lambda>k. if k < 252 then Fin 50 else Fin 101) (\<lambda>k. if k < 14 then NaN else Fin 50) 0 253,
     getVol = replicate 252 NaN @ [Fin (window_vol [ln (101 / 50)])]\<rparr>"

text \<open>
  A history of 70 bars at 149, too short for a volatility, with a call signal on each of
  the bars 14 to 29 and a put signal on each of the bars 30 to 45; the last of them
  expires on the last bar. And one of 40 bars whose only signal is on the last bar.
\<close>

definition busy :: pricing where
  "busy = \<lparr>exp_t = Fin (1 / 12), intRate = Fin (1 / 100),
     df = history (\<lambda>k. Fin 149)
                  (\<lambda>k. if k < 14 then NaN else if k < 30 then Fin 75
                        else if k < 46 then Fin 20 else Fin 50) 0 70,
     getVol = replicate 70 NaN\<rparr>"

definition late :: pricing where
  "late = \<lparr>exp_t = Fin (1 / 12), intRate = Fin (1 / 100),
     df = history (\<lambda>k. Fin 149) (\<lambda>k. if k < 14 then NaN else if k = 39 then Fin 75 else Fin 50) 0 40,
     getVol = replicate 40 NaN\<rparr>"

section \<open>The standard normal distribution function\<close>

lemma Phi_den: "(1::real) \<le> 2 ^ n * real (2 * n + 1)"
proof -
  have "(1::real) \<le> 2 ^ n" by simp
  moreover have "(1::real) \<le> real (2 * n + 1)" by simp
  ultimately have "(1::real) * 1 \<le> 2 ^ n * real (2 * n + 1)"
    by (rule mult_mono) simp_all
  then show ?thesis by simp
qed

lemma Phi_term_summable: "summable (Phi_term x)"
proof (rule summable_comparison_test')
  show "summable (\<lambda>n. \<bar>x\<bar> * ((x * x) ^ n /\<^sub>R fact n))"
    by (intro summable_mult summable_exp_generic)
next
  fix n :: nat
  assume "n \<ge> 0"
  have e: "x ^ (2 * n + 1) = x * (x * x) ^ n"
    by (simp add: power_mult power2_eq_square)
  have p: "0 \<le> (x * x) ^ n"
    by (rule zero_le_power) simp
  have a: "\<bar>x ^ (2 * n + 1)\<bar> = \<bar>x\<bar> * (x * x) ^ n"
    unfolding e using p by (simp only: abs_mult abs_of_nonneg)
  have "norm (Phi_term x n) = \<bar>x ^ (2 * n + 1)\<bar> / (fact n * (2 ^ n * real (2 * n + 1)))"
    unfolding Phi_term_def by (simp add: abs_mult power_abs del: power_Suc)
  also have "\<dots> = \<bar>x\<bar> * (x * x) ^ n / (fact n * (2 ^ n * real (2 * n + 1)))"
    by (simp only: a)
  also have "\<dots> \<le> \<bar>x\<bar> * (x * x) ^ n / (fact n * 1)"
    using p by (intro divide_left_mono mult_left_mono Phi_den) (simp_all add: zero_less_mult_iff)
  finally show "norm (Phi_term x n) \<le> \<bar>x\<bar> * ((x * x) ^ n /\<^sub>R fact n)"
    by (simp add: divide_inverse mult_ac)
qed

lemma Phi_symmetric: "Phi d + Phi (- d) = 1"
proof -
  have "Phi_term (- d) = (\<lambda>n. - Phi_term d n)"
    by (rule ext) (simp add: Phi_term_def)
  then have "(\<Sum>n. Phi_term (- d) n) = - (\<Sum>n. Phi_term d n)"
    by (simp add: suminf_minus [OF Phi_term_summable])
  then show ?thesis
    by (simp add: Phi_def)
qed

section \<open>The option pricer on valid inputs\<close>

lemma d1_finite:
  assumes "0 < S" "0 < K" "0 < T" "0 < sigma"
  shows "d1 (Fin S) (Fin K) (Fin T) (Fin r) (Fin sigma) =
           Fin ((ln (S / K) + (r + 1 / 2 * (sigma * sigma)) * T) / (sigma * sqrt T))"
  using assms by (simp add: d1_def)

lemma d2_finite:
  assumes "0 < S" "0 < K" "0 < T" "0 < sigma"
  shows "d2 (Fin S) (Fin K) (Fin T) (Fin r) (Fin sigma) =
           Fin ((ln (S / K) + (r - 1 / 2 * (sigma * sigma)) * T) / (sigma * sqrt T))"
  using assms by (simp add: d2_def fl_sub_def)

lemma call_price_finite:
  assumes "0 < S" "0 < K" "0 < T" "0 < sigma"
  shows "call_price (Fin S) (Fin K) (Fin T) (Fin r) (Fin sigma) =
           Fin (S * Phi ((ln (S / K) + (r + 1 / 2 * (sigma * sigma)) * T) / (sigma * sqrt T)) -
                K * exp (- r * T) * Phi ((ln (S / K) + (r - 1 / 2 * (sigma * sigma)) * T) / (sigma * sqrt T)))"
  unfolding call_price_def d1_finite [OF assms] d2_finite [OF assms]
  by (simp add: fl_sub_def)

lemma put_price_finite:
  assumes "0 < S" "0 < K" "0 < T" "0 < sigma"
  shows "put_price (Fin S) (Fin K) (Fin T) (Fin r) (Fin sigma) =
           Fin (K * exp (- r * T) * Phi (- ((ln (S / K) + (r - 1 / 2 * (sigma * sigma)) * T) / (sigma * sqrt T))) -
                S * Phi (- ((ln (S / K) + (r + 1 / 2 * (sigma * sigma)) * T) / (sigma * sqrt T))))"
  unfolding put_price_def d1_finite [OF assms] d2_finite [OF assms]
  by (simp add: fl_sub_def)

lemma Phi_neg: "Phi (- d) = 1 - Phi d"
  using Phi_symmetric [of d] by simp

text \<open>
  C6. Put-call parity: for a finite spot, strike, time to expiration and volatility, all
  positive, and any finite rate, the call expression minus the put expression of the pricer
  is \<open>S - K * exp (- r * T)\<close>. The model's arithmetic on finite values is that of the
  real numbers, and \<open>Phi d + Phi (- d) = 1\<close> is \<open>Phi_symmetric\<close>.
\<close>

theorem C6_put_call_parity:
  assumes "0 < S" "0 < K" "0 < T" "0 < sigma"
  shows "fl_sub (call_price (Fin S) (Fin K) (Fin T) (Fin r) (Fin sigma))
                (put_price (Fin S) (Fin K) (Fin T) (Fin r) (Fin sigma)) =
           Fin (S - K * exp (- r * T))"
  unfolding call_price_finite [OF assms] put_price_finite [OF assms] Phi_neg
  by (simp add: fl_sub_def algebra_simps)

theorem C6_put_call_parity_witness:
  "(0::real) < 149 \<and> (0::real) < 150 \<and> (0::real) < 1 / 12 \<and> (0::real) < 1 / 5 \<and>
   fl_sub (call_price (Fin 149) (Fin 150) (Fin (1 / 12)) (Fin (1 / 100)) (Fin (1 / 5)))
          (put_price (Fin 149) (Fin 150) (Fin (1 / 12)) (Fin (1 / 100)) (Fin (1 / 5))) =
     Fin (149 - 150 * exp (- (1 / 100) * (1 / 12)))"
  using C6_put_call_parity [of 149 150 "1 / 12" "1 / 5" "1 / 100"] by simp

section \<open>Rounding to a double\<close>

lemma rint_near: "\<bar>of_int (rint x) - x\<bar> \<le> 1 / 2"
  unfolding rint_def Let_def by (simp; linarith)

lemma rint_of_int: "rint (of_int k) = k"
  by (simp add: rint_def)

lemma rint_unique:
  assumes "of_int n - 1 / 2 < y" and "y < of_int n + 1 / 2"
  shows "rint y = n"
proof -
  have "\<bar>of_int (rint y) - y\<bar> \<le> 1 / 2"
    by (rule rint_near)
  with assms have "\<bar>(of_int (rint y) :: real) - of_int n\<bar> < 1"
    by linarith
  then have "\<bar>rint y - n\<bar> < 1"
    by (metis of_int_diff of_int_abs of_int_less_1_iff)
  then show ?thesis
    by linarith
qed

text \<open>The relative error of a rounding is at most \<open>2 ^ - 53\<close>.\<close>

lemma double_error: "\<bar>double x - x\<bar> \<le> \<bar>x\<bar> / 2 ^ 53"
proof (cases "x = 0")
  case True
  then show ?thesis by (simp add: double_def)
next
  case False
  define e where "e = \<lfloor>log 2 \<bar>x\<bar>\<rfloor>"
  define u :: real where "u = 2 powr (of_int e - 52)"
  have u: "0 < u"
    by (simp add: u_def)
  have "of_int e \<le> log 2 \<bar>x\<bar>"
    by (simp add: e_def)
  then have le: "2 powr (of_int e) \<le> \<bar>x\<bar>"
    using False by (simp add: le_log_iff)
  have ue: "u = 2 powr (of_int e) / 2 ^ 52"
    by (simp add: u_def powr_diff)
  have "double x - x = (of_int (rint (x / u)) - x / u) * u"
    using False u by (simp add: double_def Let_def e_def u_def algebra_simps)
  then have "\<bar>double x - x\<bar> = \<bar>of_int (rint (x / u)) - x / u\<bar> * u"
    using u by (simp add: abs_mult)
  also have "\<dots> \<le> 1 / 2 * u"
    using u rint_near [of "x / u"] by (intro mult_right_mono) simp_all
  also have "\<dots> = 2 powr (of_int e) / 2 ^ 53"
    by (simp add: ue)
  also have "\<dots> \<le> \<bar>x\<bar> / 2 ^ 53"
    using le by (simp add: divide_right_mono)
  finally show ?thesis .
qed

lemma double_error_bound:
  assumes "\<bar>x\<bar> \<le> B"
  shows "\<bar>double x - x\<bar> \<le> B / 2 ^ 53"
proof -
  have "\<bar>x\<bar> / 2 ^ 53 \<le> B / 2 ^ 53"
    using assms by (simp add: divide_right_mono)
  with double_error [of x] show ?thesis
    by linarith
qed


text \<open>An integer below \<open>2 ^ 53\<close> is a double.\<close>

lemma double_int:
  assumes "\<bar>m\<bar> < 2 ^ 53"
  shows "double (of_int m) = of_int m"
proof (cases "m = 0")
  case True
  then show ?thesis by (simp add: double_def)
next
  case False
  define e where "e = \<lfloor>log 2 \<bar>of_int m :: real\<bar>\<rfloor>"
  have a: "(1::real) \<le> \<bar>of_int m\<bar>" "\<bar>of_int m :: real\<bar> < 2 ^ 53"
  proof -
    from False have "1 \<le> \<bar>m\<bar>" by linarith
    then show "(1::real) \<le> \<bar>of_int m\<bar>"
      by (metis of_int_abs of_int_1_le_iff)
    from assms have "(of_int \<bar>m\<bar> :: real) < of_int (2 ^ 53)"
      by (simp only: of_int_less_iff)
    then show "\<bar>of_int m :: real\<bar> < 2 ^ 53"
      by simp
  qed
  have "log 2 \<bar>of_int m :: real\<bar> < 53"
    using a by (simp add: log_less_iff)
  then have e53: "e < 53"
    unfolding e_def by (simp add: floor_less_iff)
  define k where "k = nat (52 - e)"
  have ek: "of_int e - 52 = - real k"
    using e53 by (simp add: k_def)
  have u: "2 powr (of_int e - 52) = 1 / (2::real) ^ k"
    unfolding ek by (simp add: powr_minus powr_realpow inverse_eq_divide)
  have "of_int m / (1 / (2::real) ^ k) = of_int (m * 2 ^ k)"
    by simp
  then have "rint (of_int m / (1 / (2::real) ^ k)) = m * 2 ^ k"
    by (simp only: rint_of_int)
  then show ?thesis
    using False by (simp add: double_def Let_def e_def [symmetric] u)
qed

section \<open>The strikes\<close>

lemma scaled_error:
  fixes s c r :: real
  assumes "\<bar>s\<bar> \<le> 1000000" and "\<bar>c - r\<bar> \<le> d"
  shows "\<bar>s * c - s * r\<bar> \<le> 1000000 * d"
proof -
  have "s * c - s * r = s * (c - r)"
    by (simp add: algebra_simps)
  then have "\<bar>s * c - s * r\<bar> = \<bar>s\<bar> * \<bar>c - r\<bar>"
    by (simp only: abs_mult)
  also have "\<dots> \<le> 1000000 * d"
    using assms by (intro mult_mono) simp_all
  finally show ?thesis .
qed

text \<open>
  The quotient that \<^verbatim>\<open>rint\<close> rounds on the way to a call strike is within \<open>10 ^ - 10\<close>
  of \<open>1.03 s / 10\<close>, for a spot of at most a million.
\<close>

lemma call_quotient_error:
  assumes "\<bar>s\<bar> \<le> 1000000"
  shows "\<bar>double (double (s * double (103 / 100)) / 10) - s * (103 / 100) / 10\<bar> \<le> 1 / 10000000000"
proof -
  define c :: real where "c = double (103 / 100)"
  define p where "p = double (s * c)"
  define y where "y = double (p / 10)"
  have "\<bar>c - 103 / 100\<bar> \<le> (103 / 100) / 2 ^ 53"
    unfolding c_def using double_error [of "103 / 100"] by simp
  then have c: "\<bar>c - 103 / 100\<bar> \<le> 2 / 10000000000000000"
    by simp
  from scaled_error [OF assms this] have a: "\<bar>s * c - s * (103 / 100)\<bar> \<le> 2 / 10000000000"
    by simp
  with assms have "\<bar>s * c\<bar> \<le> 2000000"
    by linarith
  from double_error_bound [OF this] have p: "\<bar>p - s * c\<bar> \<le> 3 / 10000000000"
    unfolding p_def by simp
  with a assms have "\<bar>p / 10\<bar> \<le> 300000"
    by linarith
  from double_error_bound [OF this] have y: "\<bar>y - p / 10\<bar> \<le> 4 / 100000000000"
    unfolding y_def by simp
  from a p y have "\<bar>y - s * (103 / 100) / 10\<bar> \<le> 1 / 10000000000"
    by linarith
  then show ?thesis
    by (simp only: y_def p_def c_def)
qed

lemma put_quotient_error:
  assumes "\<bar>s\<bar> \<le> 1000000"
  shows "\<bar>double (double (s - double (s * double (3 / 100))) / 10) - s * (97 / 100) / 10\<bar> \<le> 1 / 10000000000"
proof -
  define c :: real where "c = double (3 / 100)"
  define q where "q = double (s * c)"
  define p where "p = double (s - q)"
  define y where "y = double (p / 10)"
  have "\<bar>c - 3 / 100\<bar> \<le> (3 / 100) / 2 ^ 53"
    unfolding c_def using double_error [of "3 / 100"] by simp
  then have c: "\<bar>c - 3 / 100\<bar> \<le> 1 / 100000000000000000"
    by simp
  from scaled_error [OF assms this] have a: "\<bar>s * c - s * (3 / 100)\<bar> \<le> 1 / 100000000000"
    by simp
  with assms have "\<bar>s * c\<bar> \<le> 100000"
    by linarith
  from double_error_bound [OF this] have q: "\<bar>q - s * c\<bar> \<le> 2 / 100000000000"
    unfolding q_def by simp
  with a assms have "\<bar>s - q\<bar> \<le> 2000000"
    by linarith
  from double_error_bound [OF this] have p: "\<bar>p - (s - q)\<bar> \<le> 3 / 10000000000"
    unfolding p_def by simp
  with a q assms have "\<bar>p / 10\<bar> \<le> 300000"
    by linarith
  from double_error_bound [OF this] have y: "\<bar>y - p / 10\<bar> \<le> 4 / 100000000000"
    unfolding y_def by simp
  from a q p y have "\<bar>y - s * (97 / 100) / 10\<bar> \<le> 1 / 10000000000"
    by linarith
  then show ?thesis
    by (simp only: y_def p_def q_def c_def)
qed

lemma tens_exact:
  assumes "\<bar>y\<bar> \<le> 1000000" and "\<bar>b\<bar> \<le> 5"
  shows "double (double (of_int (rint y) * 10) + of_int b) = 10 * of_int (rint y) + of_int b"
proof -
  have "\<bar>of_int (rint y) - y\<bar> \<le> 1 / 2"
    by (rule rint_near)
  with assms(1) have "\<bar>of_int (rint y) :: real\<bar> \<le> of_int 1000001"
    by linarith
  then have "\<bar>rint y\<bar> \<le> 1000001"
    by (metis of_int_abs of_int_le_iff)
  with assms(2) have m: "\<bar>rint y * 10\<bar> < 2 ^ 53" "\<bar>rint y * 10 + b\<bar> < 2 ^ 53"
    by simp_all
  have "double (of_int (rint y) * 10) = double (of_int (rint y * 10))"
    by simp
  also have "\<dots> = of_int (rint y * 10)"
    using m(1) by (rule double_int)
  finally have "double (double (of_int (rint y) * 10) + of_int b) = double (of_int (rint y * 10 + b))"
    by simp
  also have "\<dots> = of_int (rint y * 10 + b)"
    using m(2) by (rule double_int)
  finally show ?thesis
    by simp
qed

lemma call_strikes:
  assumes "\<bar>s\<bar> \<le> 1000000"
  shows "near_call s = 10 * of_int (rint (double (double (s * double (103 / 100)) / 10)))"
    and "far_call s = near_call s + 5"
    and "\<bar>near_call s - s * (103 / 100)\<bar> \<le> 5 + 1 / 100000000"
    and "\<bar>s * (103 / 100) - 10 * of_int n\<bar> \<le> 5 - 1 / 100000000 \<Longrightarrow> near_call s = 10 * of_int n"
proof -
  define y where "y = double (double (s * double (103 / 100)) / 10)"
  have e: "\<bar>y - s * (103 / 100) / 10\<bar> \<le> 1 / 10000000000"
    unfolding y_def using assms by (rule call_quotient_error)
  with assms have b: "\<bar>y\<bar> \<le> 1000000"
    by linarith
  from tens_exact [OF b, of 0] have n: "near_call s = 10 * of_int (rint y)"
    by (simp add: near_call_def y_def)
  from tens_exact [OF b, of 5] have f: "far_call s = 10 * of_int (rint y) + 5"
    by (simp add: far_call_def y_def)
  show "near_call s = 10 * of_int (rint (double (double (s * double (103 / 100)) / 10)))"
    using n by (simp only: y_def)
  show "far_call s = near_call s + 5"
    using n f by simp
  show "\<bar>near_call s - s * (103 / 100)\<bar> \<le> 5 + 1 / 100000000"
    using e rint_near [of y] unfolding n by linarith
  show "near_call s = 10 * of_int n" if "\<bar>s * (103 / 100) - 10 * of_int n\<bar> \<le> 5 - 1 / 100000000"
  proof -
    from that e have "of_int n - 1 / 2 < y"
      by linarith
    moreover from that e have "y < of_int n + 1 / 2"
      by linarith
    ultimately have "rint y = n"
      by (rule rint_unique)
    with n show ?thesis by simp
  qed
qed

lemma put_strikes:
  assumes "\<bar>s\<bar> \<le> 1000000"
  shows "near_put s = 10 * of_int (rint (double (double (s - double (s * double (3 / 100))) / 10)))"
    and "far_put s = near_put s - 5"
    and "\<bar>near_put s - s * (97 / 100)\<bar> \<le> 5 + 1 / 100000000"
    and "\<bar>s * (97 / 100) - 10 * of_int n\<bar> \<le> 5 - 1 / 100000000 \<Longrightarrow> near_put s = 10 * of_int n"
proof -
  define y where "y = double (double (s - double (s * double (3 / 100))) / 10)"
  have e: "\<bar>y - s * (97 / 100) / 10\<bar> \<le> 1 / 10000000000"
    unfolding y_def using assms by (rule put_quotient_error)
  with assms have b: "\<bar>y\<bar> \<le> 1000000"
    by linarith
  from tens_exact [OF b, of 0] have n: "near_put s = 10 * of_int (rint y)"
    by (simp add: near_put_def y_def)
  from tens_exact [OF b, of "- 5"] have f: "far_put s = 10 * of_int (rint y) - 5"
    by (simp add: far_put_def y_def)
  show "near_put s = 10 * of_int (rint (double (double (s - double (s * double (3 / 100))) / 10)))"
    using n by (simp only: y_def)
  show "far_put s = near_put s - 5"
    using n f by simp
  show "\<bar>near_put s - s * (97 / 100)\<bar> \<le> 5 + 1 / 100000000"
    using e rint_near [of y] unfolding n by linarith
  show "near_put s = 10 * of_int n" if "\<bar>s * (97 / 100) - 10 * of_int n\<bar> \<le> 5 - 1 / 100000000"
  proof -
    from that e have "of_int n - 1 / 2 < y"
      by linarith
    moreover from that e have "y < of_int n + 1 / 2"
      by linarith
    ultimately have "rint y = n"
      by (rule rint_unique)
    with n show ?thesis by simp
  qed
qed

lemma strikes_149:
  "near_call 149 = 150" "far_call 149 = 155" "near_put 149 = 140" "far_put 149 = 135"
  using call_strikes(2) [of 149] call_strikes(4) [of 149 15]
    put_strikes(2) [of 149] put_strikes(4) [of 149 14]
  by simp_all

lemma strikes_101:
  "near_call 101 = 100" "far_call 101 = 105" "near_put 101 = 100" "far_put 101 = 95"
  using call_strikes(2) [of 101] call_strikes(4) [of 101 10]
    put_strikes(2) [of 101] put_strikes(4) [of 101 10]
  by simp_all










section \<open>The spread constructor\<close>

lemma call_strike_finite:
  "call_strike (Fin s) (Fin 0) = Fin (near_call s)" "call_strike (Fin s) (Fin 5) = Fin (far_call s)"
  by (simp_all add: call_strike_def near_call_def far_call_def)

lemma put_strike_finite:
  "put_strike (Fin s) (Fin 0) = Fin (near_put s)" "put_strike (Fin s) (Fin 5) = Fin (far_put s)"
  by (simp_all add: put_strike_def near_put_def far_put_def fl_sub_def)

lemma call_legs_two:
  assumes "d < length (getVol self)"
  shows "call_legs self S d 2 (Fin 0) [] [] =
           Inr ([call_strike S (Fin 0), call_strike S (Fin 5)],
                [call_price S (call_strike S (Fin 0)) (exp_t self) (intRate self) (getVol self ! d),
                 call_price S (call_strike S (Fin 5)) (exp_t self) (intRate self) (getVol self ! d)])"
  using assms by (simp add: numeral_2_eq_2 vol_at_def Let_def)

lemma put_legs_two:
  assumes "d < length (getVol self)"
  shows "put_legs self S d 2 (Fin 0) [] [] =
           Inr ([put_strike S (Fin 0), put_strike S (Fin 5)],
                [put_price S (put_strike S (Fin 0)) (exp_t self) (intRate self) (getVol self ! d),
                 put_price S (put_strike S (Fin 5)) (exp_t self) (intRate self) (getVol self ! d)])"
  using assms by (simp add: numeral_2_eq_2 vol_at_def Let_def)

lemma call_legs_no_vol:
  assumes "\<not> d < length (getVol self)"
  shows "call_legs self S d 2 b [] [] = Inl IndexError"
  using assms by (simp add: numeral_2_eq_2 vol_at_def Let_def)

lemma put_legs_no_vol:
  assumes "\<not> d < length (getVol self)"
  shows "put_legs self S d 2 b [] [] = Inl IndexError"
  using assms by (simp add: numeral_2_eq_2 vol_at_def Let_def)






lemma d1_zero_vol:
  assumes "0 < S" "0 < K" "0 < T"
  shows "d1 (Fin S) (Fin K) (Fin T) (Fin r) (Fin 0) = signed_inf (ln (S / K) + r * T)"
  using assms by (simp add: d1_def)

lemma d2_zero_vol:
  assumes "0 < S" "0 < K" "0 < T"
  shows "d2 (Fin S) (Fin K) (Fin T) (Fin r) (Fin 0) = signed_inf (ln (S / K) + r * T)"
  using assms by (simp add: d2_def fl_sub_def)

text \<open>
  C5 (amended). The pricer checks neither the volatility nor the time to expiration.
  \<^verbatim>\<open>getCallData\<close> and \<^verbatim>\<open>getPutData\<close> fail only when the position is outside the
  volatility series, with an IndexError, and return a quote for every other input. With a
  zero volatility (and a positive finite spot, strike and time) the division by zero makes
  \<open>d1\<close> and \<open>d2\<close> an infinity of the sign of \<open>ln (S / K) + r * T\<close>, or NaN when that
  is zero, and the evaluation goes on.
\<close>

theorem C5_pricer_never_rejects:
  "(d < length (getVol self) \<longrightarrow>
      (\<exists>credit strike0 strike1. getCallData self S d = Inr (credit, strike0, strike1)) \<and>
      (\<exists>credit strike0 strike1. getPutData self S d = Inr (credit, strike0, strike1))) \<and>
   (\<not> d < length (getVol self) \<longrightarrow>
      getCallData self S d = Inl IndexError \<and> getPutData self S d = Inl IndexError) \<and>
   (0 < s \<and> 0 < K \<and> 0 < T \<longrightarrow>
      d1 (Fin s) (Fin K) (Fin T) (Fin r) (Fin 0) = signed_inf (ln (s / K) + r * T) \<and>
      d2 (Fin s) (Fin K) (Fin T) (Fin r) (Fin 0) = signed_inf (ln (s / K) + r * T))"
proof (intro conjI impI)
  assume v: "d < length (getVol self)"
  show "\<exists>credit strike0 strike1. getCallData self S d = Inr (credit, strike0, strike1)"
    unfolding getCallData_def call_legs_two [OF v] by simp
  show "\<exists>credit strike0 strike1. getPutData self S d = Inr (credit, strike0, strike1)"
    unfolding getPutData_def put_legs_two [OF v] by simp
next
  assume v: "\<not> d < length (getVol self)"
  show "getCallData self S d = Inl IndexError"
    unfolding getCallData_def call_legs_no_vol [OF v] by simp
  show "getPutData self S d = Inl IndexError"
    unfolding getPutData_def put_legs_no_vol [OF v] by simp
next
  assume "0 < s \<and> 0 < K \<and> 0 < T"
  then show "d1 (Fin s) (Fin K) (Fin T) (Fin r) (Fin 0) = signed_inf (ln (s / K) + r * T)"
    by (simp add: d1_zero_vol)
next
  assume "0 < s \<and> 0 < K \<and> 0 < T"
  then show "d2 (Fin s) (Fin K) (Fin T) (Fin r) (Fin 0) = signed_inf (ln (s / K) + r * T)"
    by (simp add: d2_zero_vol)
qed

theorem C5_pricer_never_rejects_witness:
  "(252::nat) < length (getVol (flat 101)) \<and> \<not> (253::nat) < length (getVol (flat 101)) \<and>
   (0::real) < 101 \<and> (0::real) < 100 \<and> (0::real) < 1 / 12 \<and>
   getCallData (flat 101) (Fin 101) 252 = Inr (Fin 1, Fin 100, Fin 105) \<and>
   getPutData (flat 101) (Fin 101) 252 = Inr (Fin 0, Fin 100, Fin 95) \<and>
   getCallData (flat 101) (Fin 101) 253 = Inl IndexError \<and>
   getPutData (flat 101) (Fin 101) 253 = Inl IndexError \<and>
   d1 (Fin 101) (Fin 100) (Fin (1 / 12)) (Fin 0) (Fin 0) = PInf \<and>
   d2 (Fin 101) (Fin 100) (Fin (1 / 12)) (Fin 0) (Fin 0) = PInf"
  using C5_pricer_never_rejects [of 252 "flat 101" "Fin 101" 101 100 "1 / 12" 0]
    C5_pricer_never_rejects [of 253 "flat 101" "Fin 101" 101 100 "1 / 12" 0]
  by (simp add: flat_def getCallData_def getPutData_def vol_at_def numeral_2_eq_2 rint_def
      call_price_def put_price_def d1_def d2_def fl_sub_def signed_inf_def Let_def nth_append
      call_strike_finite put_strike_finite strikes_101)

text \<open>
  C5 as stated fails: with the zero volatility of a flat history, and with no time left
  to expiration, the pricer returns a quote with a numeric credit.
\<close>

theorem C5_no_InvalidInput_counterexample:
  "getVol (flat 101) ! 252 = Fin 0 \<and> exp_t (flat 101) = Fin (1 / 12) \<and>
   getCallData (flat 101) (Fin 101) 252 = Inr (Fin 1, Fin 100, Fin 105) \<and>
   getPutData (flat 101) (Fin 101) 252 = Inr (Fin 0, Fin 100, Fin 95) \<and>
   getVol expired ! 252 = Fin (window_vol [ln (101 / 50)]) \<and> exp_t expired = Fin 0 \<and>
   getCallData expired (Fin 101) 252 = Inr (Fin 1, Fin 100, Fin 105) \<and>
   getPutData expired (Fin 101) 252 = Inr (Fin 0, Fin 100, Fin 95)"
  by (simp add: flat_def expired_def getCallData_def getPutData_def vol_at_def numeral_2_eq_2
      rint_def call_price_def put_price_def d1_def d2_def fl_sub_def signed_inf_def Let_def
      nth_append call_strike_finite put_strike_finite strikes_101)

section \<open>The signal scan\<close>

lemma scan_result:
  "scan bars (vd, sl, ll) =
     (vd @ map date bars,
      sl @ map date (filter (\<lambda>b. fl_gt (RSI b) (Fin 70)) bars),
      ll @ map date (filter (\<lambda>b. \<not> fl_gt (RSI b) (Fin 70) \<and> fl_lt (RSI b) (Fin 30)) bars))"
  by (induction bars arbitrary: vd sl ll) (simp_all add: Let_def)

lemma date_in_filter:
  assumes "distinct (map date bars)" and "b \<in> set bars"
  shows "date b \<in> set (map date (filter P bars)) \<longleftrightarrow> P b"
proof
  assume "date b \<in> set (map date (filter P bars))"
  then obtain c where c: "c \<in> set bars" "P c" "date c = date b"
    by auto
  from assms c(1,3) have "c = b"
    by (meson distinct_map inj_onD)
  with c(2) show "P b" by simp
next
  assume "P b"
  with assms(2) show "date b \<in> set (map date (filter P bars))"
    by auto
qed

text \<open>
  C8. In a frame with one row per date, the date of a row with a finite RSI \<open>x\<close> is put on
  \<open>shortList\<close> (the call-spread side) exactly when \<open>x > 70\<close> and on \<open>longList\<close> (the
  put-spread side) exactly when \<open>x < 30\<close>; with \<open>x = 70\<close> or \<open>x = 30\<close> it is on neither.
\<close>

theorem C8_signal_thresholds:
  assumes "distinct (map date bars)" and "b \<in> set bars" and "RSI b = Fin x"
  shows "case scan bars ([], [], []) of (vd, shortList, longList) \<Rightarrow>
           (date b \<in> set shortList \<longleftrightarrow> 70 < x) \<and>
           (date b \<in> set longList \<longleftrightarrow> x < 30) \<and>
           (x = 70 \<or> x = 30 \<longrightarrow> date b \<notin> set shortList \<and> date b \<notin> set longList)"
proof -
  note f = date_in_filter [OF assms(1,2)]
  have s: "date b \<in> set (map date (filter (\<lambda>b. fl_gt (RSI b) (Fin 70)) bars)) \<longleftrightarrow> 70 < x"
    by (simp only: f assms(3) fl_gt.simps)
  have l: "date b \<in> set (map date (filter (\<lambda>b. \<not> fl_gt (RSI b) (Fin 70) \<and> fl_lt (RSI b) (Fin 30)) bars))
             \<longleftrightarrow> x < 30"
    by (simp only: f assms(3) fl_gt.simps fl_lt_def) linarith
  show ?thesis
    unfolding scan_result prod.case append_Nil s l by linarith
qed

theorem C8_signal_thresholds_witness:
  "distinct (map date rsi_bars) \<and>
   \<lparr>date = 0, Close = Fin 150, RSI = Fin 70\<rparr> \<in> set rsi_bars \<and>
   RSI \<lparr>date = 0, Close = Fin 150, RSI = Fin 70\<rparr> = Fin 70 \<and>
   (case scan rsi_bars ([], [], []) of (vd, shortList, longList) \<Rightarrow>
      0 \<notin> set shortList \<and> 0 \<notin> set longList) \<and>
   scan rsi_bars ([], [], []) = ([0, 1, 4, 5], [1], [4])"
  using C8_signal_thresholds [of rsi_bars "\<lparr>date = 0, Close = Fin 150, RSI = Fin 70\<rparr>" 70]
  by (simp add: rsi_bars_def fl_lt_def)

section \<open>The expiration date\<close>

lemma weekday_step:
  fixes w :: int
  assumes "0 \<le> w" "w < 7" "w \<noteq> 4"
  shows "1 + (4 - (w + 1) mod 7) mod 7 = (4 - w) mod 7"
proof -
  from assms have "w = 0 \<or> w = 1 \<or> w = 2 \<or> w = 3 \<or> w = 5 \<or> w = 6"
    by linarith
  then show ?thesis
    by (elim disjE) simp_all
qed

lemma weekday_next:
  assumes "weekday g \<noteq> 4"
  shows "g + 1 + (4 - weekday (g + 1)) mod 7 = g + (4 - weekday g) mod 7"
proof -
  define w where "w = weekday g"
  have b: "0 \<le> w" "w < 7"
    by (simp_all add: w_def weekday_def)
  have "g + 1 + 3 = (g + 3) + 1"
    by simp
  then have "weekday (g + 1) = ((g + 3) + 1) mod 7"
    unfolding weekday_def by (rule arg_cong)
  also have "\<dots> = (w + 1) mod 7"
    unfolding w_def weekday_def by (simp only: mod_add_left_eq)
  finally have e: "weekday (g + 1) = (w + 1) mod 7" .
  define x where "x = (4 - (w + 1) mod 7) mod 7"
  define y where "y = (4 - w) mod 7"
  have nw: "w \<noteq> 4"
    unfolding w_def by (rule assms)
  from weekday_step [OF b nw] have "1 + x = y"
    by (simp only: x_def y_def)
  then have "g + 1 + x = g + y"
    by linarith
  then show ?thesis
    by (simp only: e x_def y_def w_def)
qed

lemma weekday_max: "weekday Timestamp_max = 4"
  by (simp add: weekday_def Timestamp_max_def)

lemma first_friday_next:
  assumes "weekday g \<noteq> 4"
  shows "first_friday (g + 1) = first_friday g"
  unfolding first_friday_def using assms by (rule weekday_next)

lemma first_friday_is_friday: "weekday (first_friday d) = 4"
proof -
  define a where "a = d + 3"
  have "d + (4 - a mod 7) mod 7 + 3 = a + (4 - a mod 7) mod 7"
    by (simp add: a_def)
  then have "(d + (4 - a mod 7) mod 7 + 3) mod 7 = (a + (4 - a mod 7) mod 7) mod 7"
    by (rule arg_cong)
  also have "\<dots> = (a + (4 - a mod 7)) mod 7"
    by (simp only: mod_add_right_eq)
  also have "\<dots> = (a + 4 - a mod 7) mod 7"
    by (simp only: add_diff_eq)
  also have "\<dots> = (a + 4 - a) mod 7"
    by (simp only: mod_diff_right_eq)
  also have "\<dots> = 4"
    by simp
  finally show ?thesis
    by (simp only: a_def first_friday_def weekday_def)
qed

lemma first_friday_bounds: "d \<le> first_friday d" "first_friday d \<le> d + 6"
proof -
  define m where "m = (4 - weekday d) mod 7"
  have "0 \<le> m" "m < 7"
    by (simp_all add: m_def)
  then show "d \<le> first_friday d" "first_friday d \<le> d + 6"
    unfolding first_friday_def m_def [symmetric] by linarith+
qed

text \<open>
  The last day of the timestamps is a Friday, so the first loop ends at the first Friday
  on or after the day where it starts.
\<close>

lemma to_friday_closed:
  assumes "d \<le> Timestamp_max"
  shows "to_friday d = Inr (first_friday d) \<and> first_friday d \<le> Timestamp_max"
  using assms
proof (induction d rule: to_friday.induct)
  case (1 g)
  show ?case
  proof (cases "weekday g = 4")
    case True
    then have "first_friday g = g"
      by (simp add: first_friday_def)
    with True "1.prems" show ?thesis
      by (subst to_friday.simps) simp
  next
    case False
    with weekday_max have "g \<noteq> Timestamp_max"
      by auto
    with "1.prems" have s: "g + 1 \<le> Timestamp_max"
      by linarith
    from "1.IH" [OF False s s] first_friday_next [OF False]
    have "to_friday (g + 1) = Inr (first_friday g) \<and> first_friday g \<le> Timestamp_max"
      by simp
    with False s show ?thesis
      by (subst to_friday.simps) simp
  qed
qed

lemma to_friday_eval: "d \<le> Timestamp_max \<Longrightarrow> to_friday d = Inr (first_friday d)"
  by (simp add: to_friday_closed)

lemma to_valid_found:
  assumes "e \<in> set vd" and "d \<le> e" and "e \<le> Timestamp_max"
  shows "\<exists>g. to_valid vd d = Inr g \<and> g \<in> set vd \<and> d \<le> g \<and> g \<le> e \<and>
             (\<forall>x\<in>set vd. d \<le> x \<longrightarrow> g \<le> x)"
  using assms(1,2)
proof (induction "nat (e - d)" arbitrary: d)
  case 0
  then have "d = e" by simp
  with 0 show ?case
    by (subst to_valid.simps) auto
next
  case (Suc n)
  show ?case
  proof (cases "d \<in> set vd")
    case True
    with Suc.prems show ?thesis
      by (subst to_valid.simps) auto
  next
    case False
    with Suc.prems have s: "d + 1 \<le> e"
      by (cases "d = e") auto
    with assms(3) have m: "d + 1 \<le> Timestamp_max"
      by linarith
    from Suc.hyps(2) have "n = nat (e - (d + 1))"
      by simp
    with s obtain g where g: "to_valid vd (d + 1) = Inr g" "g \<in> set vd" "d + 1 \<le> g"
        "g \<le> e" "\<forall>x\<in>set vd. d + 1 \<le> x \<longrightarrow> g \<le> x"
      using Suc.hyps(1) [of "d + 1"] Suc.prems(1) by blast
    have "to_valid vd d = Inr g"
      using False m g(1) by (subst to_valid.simps) simp
    moreover have "\<forall>x\<in>set vd. d \<le> x \<longrightarrow> g \<le> x"
    proof (intro ballI impI)
      fix x assume x: "x \<in> set vd" "d \<le> x"
      with False have "d + 1 \<le> x"
        by (cases "x = d") auto
      with g(5) x(1) show "g \<le> x" by blast
    qed
    ultimately show ?thesis
      using g by auto
  qed
qed

lemma to_valid_fails:
  assumes "\<forall>x\<in>set vd. x < d \<or> Timestamp_max < x" and "d \<le> Timestamp_max"
  shows "to_valid vd d = Inl OutOfBoundsDatetime"
  using assms
proof (induction vd d rule: to_valid.induct)
  case (1 vd g)
  from "1.prems" have n: "g \<notin> set vd"
    by fastforce
  show ?case
  proof (cases "g + 1 \<le> Timestamp_max")
    case True
    from "1.prems"(1) have "\<forall>x\<in>set vd. x < g + 1 \<or> Timestamp_max < x"
      by fastforce
    from "1.IH" [OF n True this True] n True show ?thesis
      by (subst to_valid.simps) simp
  next
    case False
    with n show ?thesis
      by (subst to_valid.simps) simp
  qed
qed

lemma getExp_found:
  assumes "e \<in> set vd" and "first_friday (i + 30) \<le> e" and "e \<le> Timestamp_max"
  shows "\<exists>g. getExp vd i = Inr g \<and> g \<in> set vd \<and> i + 30 \<le> g \<and>
             to_friday (i + 30) = Inr (first_friday (i + 30)) \<and>
             first_friday (i + 30) \<le> g \<and> g \<le> e \<and>
             (\<forall>x\<in>set vd. first_friday (i + 30) \<le> x \<longrightarrow> g \<le> x)"
proof -
  have b: "i + 30 \<le> first_friday (i + 30)"
    by (rule first_friday_bounds)
  with assms(2,3) have m: "i + 30 \<le> Timestamp_max"
    by linarith
  then have f: "to_friday (i + 30) = Inr (first_friday (i + 30))"
    by (rule to_friday_eval)
  from to_valid_found [OF assms] obtain g where g: "to_valid vd (first_friday (i + 30)) = Inr g"
      "g \<in> set vd" "first_friday (i + 30) \<le> g" "g \<le> e"
      "\<forall>x\<in>set vd. first_friday (i + 30) \<le> x \<longrightarrow> g \<le> x"
    by blast
  have "getExp vd i = Inr g"
    using m f g(1) by (simp add: getExp_def)
  moreover have "i + 30 \<le> g"
    using b g(3) by linarith
  ultimately show ?thesis
    using f g by blast
qed

lemma getExp_fails:
  assumes "\<forall>e\<in>set vd. e < first_friday (i + 30) \<or> Timestamp_max < e"
  shows "getExp vd i = Inl OutOfBoundsDatetime"
proof (cases "i + 30 \<le> Timestamp_max")
  case True
  from to_friday_closed [OF True] to_valid_fails [OF assms] True show ?thesis
    by (simp add: getExp_def)
next
  case False
  then show ?thesis
    by (simp add: getExp_def)
qed

text \<open>
  C4 (amended). For an entry date \<open>i\<close>, the target is the first Friday on or after
  \<open>i + 30\<close>, at most 36 days after \<open>i\<close>. When the calendar has a date on or after the
  target (and not after the last day of the timestamps), the resolver returns the earliest
  such date: it is in the calendar, at least 30 days after \<open>i\<close>, and it is the target
  Friday itself when that is a trading day. There is no bound of about 14 days on the
  search and no NoExpirationFound: the date returned may be any number of days past the
  target, and when the calendar has no date on or after the target the search ends only at
  the last day of the timestamps, 11 April 2262, with the exception OutOfBoundsDatetime.
  The resolver ends on every input, with a date or with that exception.
\<close>

theorem C4_expiration_resolver:
  "((\<exists>e\<in>set vd. first_friday (i + 30) \<le> e \<and> e \<le> Timestamp_max) \<longrightarrow>
      (\<exists>g. getExp vd i = Inr g \<and> g \<in> set vd \<and> i + 30 \<le> g \<and>
           to_friday (i + 30) = Inr (first_friday (i + 30)) \<and>
           weekday (first_friday (i + 30)) = 4 \<and>
           i + 30 \<le> first_friday (i + 30) \<and> first_friday (i + 30) \<le> i + 36 \<and>
           first_friday (i + 30) \<le> g \<and>
           (first_friday (i + 30) \<in> set vd \<longrightarrow> g = first_friday (i + 30)) \<and>
           (\<forall>x\<in>set vd. first_friday (i + 30) \<le> x \<longrightarrow> g \<le> x))) \<and>
   ((\<forall>e\<in>set vd. e < first_friday (i + 30) \<or> Timestamp_max < e) \<longrightarrow>
      getExp vd i = Inl OutOfBoundsDatetime) \<and>
   ((\<exists>g. getExp vd i = Inr g) \<or> getExp vd i = Inl OutOfBoundsDatetime)"
proof (intro conjI impI)
  assume "\<exists>e\<in>set vd. first_friday (i + 30) \<le> e \<and> e \<le> Timestamp_max"
  then obtain e where e: "e \<in> set vd" "first_friday (i + 30) \<le> e" "e \<le> Timestamp_max"
    by blast
  from getExp_found [OF e] obtain g where g: "getExp vd i = Inr g" "g \<in> set vd" "i + 30 \<le> g"
      "to_friday (i + 30) = Inr (first_friday (i + 30))" "first_friday (i + 30) \<le> g"
      "\<forall>x\<in>set vd. first_friday (i + 30) \<le> x \<longrightarrow> g \<le> x"
    by blast
  have "first_friday (i + 30) \<in> set vd \<longrightarrow> g = first_friday (i + 30)"
    using g(5,6) by fastforce
  moreover have "first_friday (i + 30) \<le> i + 36"
    using first_friday_bounds(2) [of "i + 30"] by simp
  ultimately show "\<exists>g. getExp vd i = Inr g \<and> g \<in> set vd \<and> i + 30 \<le> g \<and>
           to_friday (i + 30) = Inr (first_friday (i + 30)) \<and>
           weekday (first_friday (i + 30)) = 4 \<and>
           i + 30 \<le> first_friday (i + 30) \<and> first_friday (i + 30) \<le> i + 36 \<and>
           first_friday (i + 30) \<le> g \<and>
           (first_friday (i + 30) \<in> set vd \<longrightarrow> g = first_friday (i + 30)) \<and>
           (\<forall>x\<in>set vd. first_friday (i + 30) \<le> x \<longrightarrow> g \<le> x)"
    using g first_friday_is_friday [of "i + 30"] first_friday_bounds(1) [of "i + 30"] by blast
next
  assume "\<forall>e\<in>set vd. e < first_friday (i + 30) \<or> Timestamp_max < e"
  then show "getExp vd i = Inl OutOfBoundsDatetime"
    by (rule getExp_fails)
next
  show "(\<exists>g. getExp vd i = Inr g) \<or> getExp vd i = Inl OutOfBoundsDatetime"
  proof (cases "\<exists>e\<in>set vd. first_friday (i + 30) \<le> e \<and> e \<le> Timestamp_max")
    case True
    then obtain e where "e \<in> set vd" "first_friday (i + 30) \<le> e" "e \<le> Timestamp_max"
      by blast
    from getExp_found [OF this] show ?thesis
      by blast
  next
    case False
    then have "\<forall>e\<in>set vd. e < first_friday (i + 30) \<or> Timestamp_max < e"
      by (meson not_le_imp_less)
    from getExp_fails [OF this] show ?thesis
      by simp
  qed
qed

lemma first_friday_30: "first_friday 30 = 36"
  by (simp add: first_friday_def weekday_def)

lemma first_friday_73: "first_friday 73 = 78"
  by (simp add: first_friday_def weekday_def)

theorem C4_expiration_resolver_witness:
  "(\<exists>e\<in>set [0, 1, 36, 43]. first_friday (0 + 30) \<le> e \<and> e \<le> Timestamp_max) \<and>
   getExp [0, 1, 36, 43] 0 = Inr 36 \<and>
   list_all (\<lambda>e. e < first_friday (43 + 30) \<or> Timestamp_max < e) [0, 1, 36, 43] \<and>
   getExp [0, 1, 36, 43] 43 = Inl OutOfBoundsDatetime"
  using C4_expiration_resolver [of "[0, 1, 36, 43]" 0] C4_expiration_resolver [of "[0, 1, 36, 43]" 43]
  by (simp add: first_friday_30 first_friday_73 Timestamp_max_def)

text \<open>
  C4 as stated fails: no search is cut off some 14 days past the target Friday, and no
  failure is a NoExpirationFound. Over a gap in the calendar the resolver returns a date 64
  days past the target, and the last day of the timestamps, in the year 2262, when that is
  the next date of the calendar; for the last date of a calendar it has stepped through
  every day up to that last day when it fails, with OutOfBoundsDatetime.
\<close>

theorem C4_no_fixed_bound_counterexample:
  "first_friday (0 + 30) = 36 \<and> getExp [0, 100] 0 = Inr 100 \<and>
   getExp [0, 106751] 0 = Inr 106751 \<and>
   getExp [0, 1, 36, 43] 43 = Inl OutOfBoundsDatetime"
proof -
  have "getExp [0, 1, 36, 43] 43 = Inl OutOfBoundsDatetime"
    by (rule getExp_fails) (simp add: first_friday_73)
  moreover have "getExp [0, 100] 0 = Inr 100"
    using getExp_found [of 100 "[0, 100]" 0] by (auto simp: first_friday_30 Timestamp_max_def)
  moreover have "getExp [0, 106751] 0 = Inr 106751"
    using getExp_found [of 106751 "[0, 106751]" 0] by (auto simp: first_friday_30 Timestamp_max_def)
  ultimately show ?thesis
    by (simp add: first_friday_30)
qed

section \<open>Candidates\<close>

lemma candidates_dates:
  assumes "candidates frame vd lst (ds, ps, es) = Inr (ds', ps', es')"
  shows "set ds' \<subseteq> set ds \<union> set lst"
  using assms
proof (induction lst arbitrary: ds ps es)
  case Nil
  then show ?case by simp
next
  case (Cons i rest)
  show ?case
  proof (cases "Close_at frame i")
    case (Inl e)
    with Cons.prems show ?thesis by simp
  next
    case (Inr c)
    show ?thesis
    proof (cases "fl_gt c (Fin 100) \<and> fl_lt c (Fin 200)")
      case False
      with Inr Cons.prems have "candidates frame vd rest (ds, ps, es) = Inr (ds', ps', es')"
        by auto
      from Cons.IH [OF this] show ?thesis by auto
    next
      case True
      with Inr Cons.prems obtain g x where
        "candidates frame vd rest (ds @ [i], ps @ [c], es @ [x]) = Inr (ds', ps', es')"
        by (auto split: sum.splits)
      from Cons.IH [OF this] show ?thesis by auto
    qed
  qed
qed

lemma trades_dates:
  assumes "trades self = Inr bk"
  shows "set (callDates bk) \<subseteq> set (fst (snd (scan (df self) ([], [], [])))) \<and>
         set (putDates bk) \<subseteq> set (snd (snd (scan (df self) ([], [], []))))"
proof -
  obtain vd sl ll where s: "scan (df self) ([], [], []) = (vd, sl, ll)"
    by (cases "scan (df self) ([], [], [])") auto
  from assms s obtain cd sp se where c: "candidates (df self) vd sl ([], [], []) = Inr (cd, sp, se)"
    by (auto simp: trades_def split: sum.splits)
  from assms s c obtain pd lp le where p: "candidates (df self) vd ll ([], [], []) = Inr (pd, lp, le)"
    by (auto simp: trades_def split: sum.splits)
  from assms s c p have "priced_and_settled self vd (cd, sp, se) (pd, lp, le) = Inr bk"
    by (simp add: trades_def)
  then have "callDates bk = cd \<and> putDates bk = pd"
    by (auto simp: priced_and_settled_def split: sum.splits)
  with candidates_dates [OF c] candidates_dates [OF p] s show ?thesis
    by simp
qed

text \<open>
  C10. In a frame with one row per date, a row whose RSI is NaN fails both comparisons,
  its date is neither on \<open>shortList\<close> nor on \<open>longList\<close>, and it is not among the call
  or put dates of the trades of any run.
\<close>

theorem C10_undefined_rsi_no_signal:
  assumes "distinct (map date (df self))" and "b \<in> set (df self)" and "RSI b = NaN"
  shows "\<not> fl_gt (RSI b) (Fin 70) \<and> \<not> fl_lt (RSI b) (Fin 30) \<and>
         (case scan (df self) ([], [], []) of (vd, shortList, longList) \<Rightarrow>
            date b \<notin> set shortList \<and> date b \<notin> set longList) \<and>
         (\<forall>bk. trades self = Inr bk \<longrightarrow>
            date b \<notin> set (callDates bk) \<and> date b \<notin> set (putDates bk))"
proof -
  note f = date_in_filter [OF assms(1,2)]
  have c: "\<not> fl_gt (RSI b) (Fin 70)" "\<not> fl_lt (RSI b) (Fin 30)"
    by (simp_all add: assms(3) fl_lt_def)
  have s: "case scan (df self) ([], [], []) of (vd, shortList, longList) \<Rightarrow>
            date b \<notin> set shortList \<and> date b \<notin> set longList"
    unfolding scan_result prod.case append_Nil f using c by simp
  have "date b \<notin> set (callDates bk) \<and> date b \<notin> set (putDates bk)"
    if "trades self = Inr bk" for bk
    using trades_dates [OF that] s by (auto split: prod.splits)
  with c s show ?thesis
    by blast
qed

section \<open>The settlement loop\<close>

lemma fl_eq_iff: "fl_eq a b \<longleftrightarrow> a = b \<and> a \<noteq> NaN"
  by (cases a; cases b) simp_all

lemma fl_eq_trans: "fl_eq a b \<Longrightarrow> fl_eq b c \<Longrightarrow> fl_eq a c"
  by (auto simp: fl_eq_iff)

lemma index_self_le: "index_self xs j \<le> j"
proof -
  have "index_self xs j \<le> length (take j xs)"
    unfolding index_self_def by (rule length_takeWhile_le)
  then show ?thesis by simp
qed

lemma index_self_before:
  assumes "j < length xs" and "i < index_self xs j"
  shows "\<not> fl_eq (xs ! i) (xs ! j)"
proof -
  let ?P = "\<lambda>x. \<not> fl_eq x (xs ! j)"
  from assms(2) have i: "i < length (takeWhile ?P (take j xs))"
    by (simp add: index_self_def)
  then have "takeWhile ?P (take j xs) ! i \<in> set (takeWhile ?P (take j xs))"
    by (rule nth_mem)
  then have "?P (takeWhile ?P (take j xs) ! i)"
    by (rule set_takeWhileD [THEN conjunct2])
  moreover have "takeWhile ?P (take j xs) ! i = take j xs ! i"
    using i by (rule takeWhile_nth)
  moreover have "i < j"
    using assms(2) index_self_le [of xs j] by linarith
  ultimately show ?thesis by simp
qed

lemma index_self_hit:
  assumes "j < length xs" and "index_self xs j < j"
  shows "fl_eq (xs ! index_self xs j) (xs ! j)"
proof -
  let ?P = "\<lambda>x. \<not> fl_eq x (xs ! j)"
  from assms have "length (takeWhile ?P (take j xs)) < length (take j xs)"
    by (simp add: index_self_def)
  then have "\<not> ?P (take j xs ! length (takeWhile ?P (take j xs)))"
    by (rule nth_length_takeWhile)
  with assms(2) show ?thesis
    by (simp add: index_self_def)
qed

lemma index_self_own:
  assumes "j < length xs" and "\<forall>i<j. \<not> fl_eq (xs ! i) (xs ! j)"
  shows "index_self xs j = j"
proof (rule ccontr)
  assume "index_self xs j \<noteq> j"
  with index_self_le [of xs j] have "index_self xs j < j" by linarith
  from index_self_hit [OF assms(1) this] assms(2) this show False by blast
qed


lemma realized_otm:
  assumes "otm (strikes ! k) (expPrices ! k)"
  shows "realized otm strikes expPrices cs k = cs ! k"
  using assms by (simp add: realized_def settled_own_def)

lemma no_offsetD:
  assumes "no_offset cs" and "a < length cs" and "b < length cs"
  shows "\<not> fl_eq (fl_sub (cs ! a) strikeWidth) (cs ! b)"
  using assms unfolding no_offset_def by (meson nth_mem)

lemma settle_round:
  assumes len: "length cs \<le> length strikes" "length cs \<le> length expPrices"
    and off: "no_offset cs"
    and j: "j < length cs"
    and cur: "length cur = length cs"
      "\<forall>i<length cs. cur ! i = (if i < j then realized otm strikes expPrices cs i else cs ! i)"
  shows "\<exists>cur'. settle_loop otm strikes expPrices (j # js) cur =
                  settle_loop otm strikes expPrices js cur' \<and>
               length cur' = length cs \<and>
               (\<forall>i<length cs. cur' ! i =
                  (if i < Suc j then realized otm strikes expPrices cs i else cs ! i))"
proof -
  let ?F = "realized otm strikes expPrices cs"
  let ?k = "index_self cur j"
  have jc: "j < length cur"
    using j cur(1) by simp
  have curj: "cur ! j = cs ! j"
    using cur(2) j by simp
  have kj: "?k \<le> j"
    by (rule index_self_le)
  then have kn: "?k < length strikes" "?k < length expPrices" "?k < length cs"
    using j len by linarith+
  have early: "\<not> fl_eq (?F i) (cs ! j)" if "i < ?k" for i
  proof -
    from that kj have "i < j" by linarith
    with cur(2) j have "cur ! i = ?F i" by simp
    with index_self_before [OF jc that] curj show ?thesis by simp
  qed
  show ?thesis
  proof (cases "?k < j")
    case True
    then have curk: "cur ! ?k = ?F ?k"
      using cur(2) kn(3) by simp
    from index_self_hit [OF jc True] have hit: "fl_eq (?F ?k) (cs ! j)"
      by (simp add: curk curj)
    have otmk: "otm (strikes ! ?k) (expPrices ! ?k)"
    proof (rule ccontr)
      assume n: "\<not> otm (strikes ! ?k) (expPrices ! ?k)"
      show False
      proof (cases "shadowed otm strikes expPrices cs ?k")
        case True
        then obtain k' where k': "k' < ?k" "fl_eq (cs ! k') (cs ! ?k)"
            "otm (strikes ! k') (expPrices ! k')"
          unfolding shadowed_def by blast
        from True have "?F ?k = cs ! ?k"
          by (simp add: realized_def)
        with hit have "fl_eq (cs ! ?k) (cs ! j)"
          by simp
        with k'(2) have "fl_eq (cs ! k') (cs ! j)"
          by (rule fl_eq_trans)
        with realized_otm [where otm = otm and strikes = strikes and expPrices = expPrices and cs = cs and k = k', OF k'(3)] early [OF k'(1)] show False
          by simp
      next
        case False
        with n have "?F ?k = fl_sub (cs ! ?k) strikeWidth"
          by (simp add: realized_def settled_own_def)
        with hit no_offsetD [OF off kn(3) j] show False
          by simp
      qed
    qed
    from realized_otm [where otm = otm and strikes = strikes and expPrices = expPrices and cs = cs and k = "index_self cur j", OF otmk] hit have "fl_eq (cs ! ?k) (cs ! j)"
      by simp
    with otmk True have "shadowed otm strikes expPrices cs j"
      unfolding shadowed_def by blast
    then have Fj: "?F j = cs ! j"
      by (simp add: realized_def)
    have "settle_loop otm strikes expPrices (j # js) cur = settle_loop otm strikes expPrices js cur"
      using kn otmk by (simp add: Let_def)
    moreover have "\<forall>i<length cs. cur ! i = (if i < Suc j then ?F i else cs ! i)"
      using cur(2) Fj curj by (auto simp: less_Suc_eq)
    ultimately show ?thesis
      using cur(1) by blast
  next
    case False
    with kj have k: "?k = j" by linarith
    have ns: "\<not> shadowed otm strikes expPrices cs j"
    proof
      assume "shadowed otm strikes expPrices cs j"
      then obtain k' where k': "k' < j" "fl_eq (cs ! k') (cs ! j)"
          "otm (strikes ! k') (expPrices ! k')"
        unfolding shadowed_def by blast
      from k'(1) k have "k' < ?k" by simp
      from early [OF this] realized_otm [where otm = otm and strikes = strikes and expPrices = expPrices and cs = cs and k = k', OF k'(3)] k'(2) show False
        by simp
    qed
    show ?thesis
    proof (cases "otm (strikes ! j) (expPrices ! j)")
      case True
      then have Fj: "?F j = cs ! j"
        by (simp add: realized_def settled_own_def)
      have "settle_loop otm strikes expPrices (j # js) cur = settle_loop otm strikes expPrices js cur"
        using kn True k by (simp add: Let_def)
      moreover have "\<forall>i<length cs. cur ! i = (if i < Suc j then ?F i else cs ! i)"
        using cur(2) Fj curj by (auto simp: less_Suc_eq)
      ultimately show ?thesis
        using cur(1) by blast
    next
      case False
      with ns have Fj: "?F j = fl_sub (cs ! j) strikeWidth"
        by (simp add: realized_def settled_own_def)
      let ?cur' = "cur[j := fl_sub (cur ! j) strikeWidth]"
      have "settle_loop otm strikes expPrices (j # js) cur = settle_loop otm strikes expPrices js ?cur'"
        using kn False k by (simp add: Let_def)
      moreover have "\<forall>i<length cs. ?cur' ! i = (if i < Suc j then ?F i else cs ! i)"
        using cur Fj curj by (auto simp: less_Suc_eq nth_list_update)
      moreover have "length ?cur' = length cs"
        using cur(1) by simp
      ultimately show ?thesis
        by blast
    qed
  qed
qed

lemma settle_loop_result:
  assumes len: "length cs \<le> length strikes" "length cs \<le> length expPrices"
    and off: "no_offset cs"
    and j: "j \<le> length cs"
    and cur: "length cur = length cs"
      "\<forall>i<length cs. cur ! i = (if i < j then realized otm strikes expPrices cs i else cs ! i)"
  shows "settle_loop otm strikes expPrices [j..<length cs] cur =
           Inr (map (realized otm strikes expPrices cs) [0..<length cs])"
  using j cur
proof (induction "length cs - j" arbitrary: j cur)
  case 0
  then have "j = length cs" by simp
  moreover have "cur = map (realized otm strikes expPrices cs) [0..<length cs]"
    using 0 by (intro nth_equalityI) auto
  ultimately show ?case by simp
next
  case (Suc m)
  then have j: "j < length cs" by linarith
  from settle_round [OF len off j Suc.prems(2,3)] obtain cur' where c:
    "settle_loop otm strikes expPrices (j # [Suc j..<length cs]) cur =
       settle_loop otm strikes expPrices [Suc j..<length cs] cur'"
    "length cur' = length cs"
    "\<forall>i<length cs. cur' ! i = (if i < Suc j then realized otm strikes expPrices cs i else cs ! i)"
    by blast
  have "m = length cs - Suc j"
    using Suc.hyps(2) by linarith
  from Suc.hyps(1) [OF this _ c(2,3)] j c(1) show ?case
    by (simp add: upt_conv_Cons)
qed

lemma settle_side_result:
  assumes "length cs \<le> length strikes" "length cs \<le> length expPrices" and "no_offset cs"
  shows "settle_side otm strikes expPrices cs =
           Inr (map (realized otm strikes expPrices cs) [0..<length cs])"
  unfolding settle_side_def
  using settle_loop_result [OF assms, of 0 cs otm] by simp

section \<open>The pricing loop\<close>

lemma price_loop_result:
  assumes "price_loop getData self vd dates prices js (cs, ks) = Inr (cs', ks')"
  shows "\<exists>qs. length qs = length js \<and>
              cs' = cs @ map (\<lambda>q. fl_mul (fst q) (Fin 100)) qs \<and>
              ks' = ks @ map (\<lambda>q. snd (snd q)) qs \<and>
              (\<forall>m<length js. \<exists>Date.
                  index_self prices (js ! m) < length dates \<and>
                  index_date vd (dates ! index_self prices (js ! m)) = Inr Date \<and>
                  getData self (prices ! (js ! m)) Date = Inr (qs ! m))"
  using assms
proof (induction js arbitrary: cs ks)
  case Nil
  then show ?case by simp
next
  case (Cons j js)
  let ?w = "index_self prices j"
  from Cons.prems have w: "?w < length dates"
    by (auto simp: Let_def split: if_splits)
  with Cons.prems obtain Date where d: "index_date vd (dates ! ?w) = Inr Date"
    by (cases "index_date vd (dates ! ?w)") (auto simp: Let_def)
  with w Cons.prems obtain q where q: "getData self (prices ! j) Date = Inr q"
    by (cases "getData self (prices ! j) Date") (auto simp: Let_def)
  obtain c k0 k1 where t: "q = (c, k0, k1)"
    by (cases q) auto
  from Cons.prems w d q t have
    "price_loop getData self vd dates prices js (cs @ [fl_mul c (Fin 100)], ks @ [k1]) = Inr (cs', ks')"
    by (simp add: Let_def)
  from Cons.IH [OF this] obtain qs where qs: "length qs = length js"
      "cs' = (cs @ [fl_mul c (Fin 100)]) @ map (\<lambda>q. fl_mul (fst q) (Fin 100)) qs"
      "ks' = (ks @ [k1]) @ map (\<lambda>q. snd (snd q)) qs"
      "\<forall>m<length js. \<exists>Date.
          index_self prices (js ! m) < length dates \<and>
          index_date vd (dates ! index_self prices (js ! m)) = Inr Date \<and>
          getData self (prices ! (js ! m)) Date = Inr (qs ! m)"
    by blast
  have "\<forall>m<length (j # js). \<exists>Date.
          index_self prices ((j # js) ! m) < length dates \<and>
          index_date vd (dates ! index_self prices ((j # js) ! m)) = Inr Date \<and>
          getData self (prices ! ((j # js) ! m)) Date = Inr ((q # qs) ! m)"
  proof (intro allI impI)
    fix m assume "m < length (j # js)"
    then show "\<exists>Date.
          index_self prices ((j # js) ! m) < length dates \<and>
          index_date vd (dates ! index_self prices ((j # js) ! m)) = Inr Date \<and>
          getData self (prices ! ((j # js) ! m)) Date = Inr ((q # qs) ! m)"
      using w d q qs(4) by (cases m) auto
  qed
  moreover have "length (q # qs) = length (j # js)"
    using qs(1) by simp
  moreover have "cs' = cs @ map (\<lambda>q. fl_mul (fst q) (Fin 100)) (q # qs)"
    using qs(2) t by simp
  moreover have "ks' = ks @ map (\<lambda>q. snd (snd q)) (q # qs)"
    using qs(3) t by simp
  ultimately show ?case
    by blast
qed

lemma price_side_result:
  assumes "price_side getData self vd dates prices = Inr (cs, ks)"
  shows "length cs = length (take 15 prices) \<and> length ks = length (take 15 prices) \<and>
         (\<forall>j<length (take 15 prices). \<exists>Date c k0 k1.
             index_self prices j < length dates \<and>
             index_date vd (dates ! index_self prices j) = Inr Date \<and>
             getData self (prices ! j) Date = Inr (c, k0, k1) \<and>
             cs ! j = fl_mul c (Fin 100) \<and> ks ! j = k1)"
proof -
  let ?n = "length (take 15 prices)"
  from price_loop_result [OF assms [unfolded price_side_def]] obtain qs where qs:
    "length qs = ?n" "cs = map (\<lambda>q. fl_mul (fst q) (Fin 100)) qs" "ks = map (\<lambda>q. snd (snd q)) qs"
    "\<forall>m<?n. \<exists>Date.
        index_self prices ([0..<?n] ! m) < length dates \<and>
        index_date vd (dates ! index_self prices ([0..<?n] ! m)) = Inr Date \<and>
        getData self (prices ! ([0..<?n] ! m)) Date = Inr (qs ! m)"
    by auto
  have "\<exists>Date c k0 k1.
             index_self prices j < length dates \<and>
             index_date vd (dates ! index_self prices j) = Inr Date \<and>
             getData self (prices ! j) Date = Inr (c, k0, k1) \<and>
             cs ! j = fl_mul c (Fin 100) \<and> ks ! j = k1" if j: "j < ?n" for j
  proof -
    from qs(4) j obtain Date where d: "index_self prices j < length dates"
      "index_date vd (dates ! index_self prices j) = Inr Date"
      "getData self (prices ! j) Date = Inr (qs ! j)"
      by fastforce
    obtain c k0 k1 where t: "qs ! j = (c, k0, k1)"
      by (cases "qs ! j") auto
    with qs(1,2,3) j have "cs ! j = fl_mul c (Fin 100)" "ks ! j = k1"
      by simp_all
    with d t show ?thesis
      by auto
  qed
  with qs(1,2,3) show ?thesis
    by simp
qed

section \<open>The trades of a run\<close>


lemma candidates_shape:
  assumes "candidates frame vd lst (ds, ps, es) = Inr (ds', ps', es')"
    and "length ds = length ps" and "length es = length ps"
    and "\<forall>p\<in>set ps. fl_gt p (Fin 100) \<and> fl_lt p (Fin 200)"
  shows "length ds' = length ps' \<and> length es' = length ps' \<and>
         (\<forall>p\<in>set ps'. fl_gt p (Fin 100) \<and> fl_lt p (Fin 200))"
  using assms
proof (induction lst arbitrary: ds ps es)
  case Nil
  then show ?case by simp
next
  case (Cons i rest)
  show ?case
  proof (cases "Close_at frame i")
    case (Inl e)
    with Cons.prems show ?thesis by simp
  next
    case (Inr c)
    show ?thesis
    proof (cases "fl_gt c (Fin 100) \<and> fl_lt c (Fin 200)")
      case False
      with Inr Cons.prems have "candidates frame vd rest (ds, ps, es) = Inr (ds', ps', es')"
        by auto
      from Cons.IH [OF this Cons.prems(2,3,4)] show ?thesis .
    next
      case True
      with Inr Cons.prems obtain g x where
        "candidates frame vd rest (ds @ [i], ps @ [c], es @ [x]) = Inr (ds', ps', es')"
        by (auto split: sum.splits)
      from Cons.IH [OF this] Cons.prems(2,3,4) True show ?thesis by simp
    qed
  qed
qed

lemma trades_parts:
  assumes "trades self = Inr bk"
  shows "scan (df self) ([], [], []) =
           (validDates bk, fst (snd (scan (df self) ([], [], []))), snd (snd (scan (df self) ([], [], [])))) \<and>
         candidates (df self) (validDates bk) (fst (snd (scan (df self) ([], [], [])))) ([], [], []) =
           Inr (callDates bk, shortPrice bk, shortExpPrice bk) \<and>
         candidates (df self) (validDates bk) (snd (snd (scan (df self) ([], [], [])))) ([], [], []) =
           Inr (putDates bk, longPrice bk, longExpPrice bk) \<and>
         price_side getCallData self (validDates bk) (callDates bk) (shortPrice bk) =
           Inr (shortCredit0 bk, shortStrike bk) \<and>
         price_side getPutData self (validDates bk) (putDates bk) (longPrice bk) =
           Inr (longCredit0 bk, longStrike bk) \<and>
         settle_side fl_gt (shortStrike bk) (shortExpPrice bk) (shortCredit0 bk) = Inr (shortCredit bk) \<and>
         settle_side fl_lt (longStrike bk) (longExpPrice bk) (longCredit0 bk) = Inr (longCredit bk)"
proof -
  obtain vd sl ll where s: "scan (df self) ([], [], []) = (vd, sl, ll)"
    by (cases "scan (df self) ([], [], [])") auto
  from assms s obtain cd sp se where c: "candidates (df self) vd sl ([], [], []) = Inr (cd, sp, se)"
    by (auto simp: trades_def split: sum.splits)
  from assms s c obtain pd lp le where p: "candidates (df self) vd ll ([], [], []) = Inr (pd, lp, le)"
    by (auto simp: trades_def split: sum.splits)
  from assms s c p have ps: "priced_and_settled self vd (cd, sp, se) (pd, lp, le) = Inr bk"
    by (simp add: trades_def)
  then obtain sc ss where pc: "price_side getCallData self vd cd sp = Inr (sc, ss)"
    by (cases "price_side getCallData self vd cd sp") (auto simp: priced_and_settled_def)
  from ps pc obtain lc ls where pp: "price_side getPutData self vd pd lp = Inr (lc, ls)"
    by (cases "price_side getPutData self vd pd lp") (auto simp: priced_and_settled_def)
  from ps pc pp obtain sc' where sc: "settle_side fl_gt ss se sc = Inr sc'"
    by (cases "settle_side fl_gt ss se sc") (auto simp: priced_and_settled_def)
  from ps pc pp sc obtain lc' where sl: "settle_side fl_lt ls le lc = Inr lc'"
    by (cases "settle_side fl_lt ls le lc") (auto simp: priced_and_settled_def)
  from ps pc pp sc sl have
    "bk = \<lparr>validDates = vd, callDates = cd, putDates = pd, shortPrice = sp, longPrice = lp,
          shortStrike = ss, longStrike = ls, shortExpPrice = se, longExpPrice = le,
          shortCredit0 = sc, longCredit0 = lc, shortCredit = sc', longCredit = lc'\<rparr>"
    by (simp add: priced_and_settled_def)
  with s c p pc pp sc sl show ?thesis
    by simp
qed







section \<open>The example histories\<close>

lemma day_alt: "day k = 4 + int k + 2 * int (k div 5)"
proof -
  have "int k = int (5 * (k div 5) + k mod 5)"
    by simp
  also have "\<dots> = 5 * int (k div 5) + int (k mod 5)"
    by (simp only: of_nat_add of_nat_mult of_nat_numeral)
  finally show ?thesis
    unfolding day_def by linarith
qed

lemma day_mono: "k < n \<Longrightarrow> day k < day n"
proof -
  assume a: "k < n"
  then have "k div 5 \<le> n div 5"
    by (simp add: div_le_mono)
  with a show ?thesis
    unfolding day_alt by linarith
qed

lemma history_dates_before:
  assumes "b \<in> set (history closes rsis 0 n)"
  shows "date b < day n"
  using assms by (auto simp: history_def day_mono)

lemma history_split:
  "m \<le> n \<Longrightarrow> history closes rsis 0 n = history closes rsis 0 m @ history closes rsis m n"
proof -
  assume "m \<le> n"
  then have "[0..<n] = [0..<m] @ [m..<n]"
    using upt_add_eq_append [of 0 m "n - m"] by simp
  then show ?thesis
    by (simp add: history_def)
qed

lemma history_no_date:
  assumes "day n \<le> d"
  shows "d \<notin> set (map date (history closes rsis 0 n))"
  using assms history_dates_before by fastforce

lemma history_no_signal:
  assumes "\<forall>k<n. \<not> P \<lparr>date = day k, Close = closes k, RSI = rsis k\<rparr>"
  shows "filter P (history closes rsis 0 n) = []"
  using assms by (auto simp: history_def filter_empty_conv)

lemma find_app:
  "find P (xs @ ys) = (case find P xs of None \<Rightarrow> find P ys | Some x \<Rightarrow> Some x)"
  by (induction xs) simp_all

lemma find_after:
  assumes "day n \<le> i"
  shows "find (\<lambda>b. date b = i) (history closes rsis 0 n @ post) = find (\<lambda>b. date b = i) post"
proof -
  have "find (\<lambda>b. date b = i) (history closes rsis 0 n) = None"
    using assms history_dates_before by (fastforce simp: find_None_iff)
  then show ?thesis
    by (simp add: find_app)
qed

lemma takeWhile_after:
  assumes "day n \<le> d"
  shows "takeWhile (\<lambda>x. x \<noteq> d) (map date (history closes rsis 0 n) @ ys) =
           map date (history closes rsis 0 n) @ takeWhile (\<lambda>x. x \<noteq> d) ys"
  using history_no_date [OF assms] by (intro takeWhile_append2) blast

lemma length_history: "length (history closes rsis m n) = n - m"
  by (simp add: history_def)

lemma fl_sub_Fin: "fl_sub (Fin a) (Fin b) = Fin (a - b)"
  by (simp add: fl_sub_def)

lemmas run_simps = fl_sub_Fin trades_def priced_and_settled_def fl_lt_def getExp_def
      Timestamp_max_def to_friday_eval first_friday_def weekday_def to_valid.simps
      price_side_def settle_side_def index_self_def
      index_date_def getCallData_def getPutData_def vol_at_def numeral_2_eq_2 rint_def Let_def
      call_strike_finite put_strike_finite strikes_149
      upt_rec strikeWidth_def scan_result find_after takeWhile_after length_history history_no_date
      Close_at_def history_no_signal nth_append

lemma jump_vol_positive: "\<exists>s. jump_vol = Fin s \<and> 0 < s"
proof -
  define L :: real where "L = ln (149 / 50)"
  have "0 < L"
    by (simp add: L_def)
  then have "0 < window_vol [L]"
    by (simp add: window_vol_def)
  then have "0 < window_vol [ln (149 / 50)]"
    by (simp only: L_def)
  then show ?thesis
    by (simp add: jump_vol_def)
qed

lemma call_credit_finite: "\<exists>x. call_credit_149 jump_vol = Fin x"
proof -
  from jump_vol_positive obtain s where s: "jump_vol = Fin s" "0 < s"
    by blast
  then show ?thesis
    unfolding call_credit_149_def s(1) by (simp add: call_price_finite fl_sub_def)
qed

lemma call_credit_eq: "fl_eq (call_credit_149 jump_vol) (call_credit_149 jump_vol)"
  using call_credit_finite by auto

lemma call_credit_offset:
  "\<not> fl_eq (fl_sub (call_credit_149 jump_vol) (Fin 500)) (call_credit_149 jump_vol)"
  "call_credit_149 jump_vol \<noteq> fl_sub (call_credit_149 jump_vol) (Fin 500)"
  using call_credit_finite by (auto simp: fl_sub_Fin)



lemma twice_trades_profit_loss:
  "trades (twice 140 160) =
     Inr \<lparr>validDates = map date (df (twice 140 160)), callDates = [356, 357], putDates = [],
          shortPrice = [Fin 149, Fin 149], longPrice = [],
          shortStrike = [Fin 155, Fin 155], longStrike = [],
          shortExpPrice = [Fin 140, Fin 160], longExpPrice = [],
          shortCredit0 = [call_credit_149 jump_vol, call_credit_149 jump_vol], longCredit0 = [],
          shortCredit = [call_credit_149 jump_vol, call_credit_149 jump_vol],
          longCredit = []\<rparr>"
  using call_credit_eq unfolding twice_def
  by (simp add: history_split [of 252 280] call_credit_149_def)
     (simp add: run_simps history_def [of _ _ 252] day_def)

lemma twice_trades_loss_profit:
  "trades (twice 160 140) =
     Inr \<lparr>validDates = map date (df (twice 160 140)), callDates = [356, 357], putDates = [],
          shortPrice = [Fin 149, Fin 149], longPrice = [],
          shortStrike = [Fin 155, Fin 155], longStrike = [],
          shortExpPrice = [Fin 160, Fin 140], longExpPrice = [],
          shortCredit0 = [call_credit_149 jump_vol, call_credit_149 jump_vol], longCredit0 = [],
          shortCredit = [fl_sub (call_credit_149 jump_vol) (Fin 500), call_credit_149 jump_vol],
          longCredit = []\<rparr>"
  using call_credit_eq call_credit_offset(1) unfolding twice_def
  by (simp add: history_split [of 252 280] call_credit_149_def)
     (simp add: run_simps history_def [of _ _ 252] day_def)

lemma young_trades:
  "trades young =
     Inr \<lparr>validDates = map date (df young), callDates = [22, 25], putDates = [26],
          shortPrice = [Fin 149, Fin 149], longPrice = [Fin 149],
          shortStrike = [Fin 155, Fin 155], longStrike = [Fin 135],
          shortExpPrice = [Fin 130, Fin 130], longExpPrice = [Fin 130],
          shortCredit0 = [NaN, NaN], longCredit0 = [NaN],
          shortCredit = [NaN, NaN], longCredit = [NaN]\<rparr>"
  unfolding young_def
  by (simp add: run_simps history_def day_def call_price_def put_price_def d1_def d2_def fl_sub_def)

section \<open>Runs of the examples\<close>

theorem C10_undefined_rsi_no_signal_witness:
  "distinct (map date (df young)) \<and>
   \<lparr>date = 4, Close = Fin 149, RSI = NaN\<rparr> \<in> set (df young) \<and>
   RSI \<lparr>date = 4, Close = Fin 149, RSI = NaN\<rparr> = NaN \<and>
   trades young =
     Inr \<lparr>validDates = map date (df young), callDates = [22, 25], putDates = [26],
          shortPrice = [Fin 149, Fin 149], longPrice = [Fin 149],
          shortStrike = [Fin 155, Fin 155], longStrike = [Fin 135],
          shortExpPrice = [Fin 130, Fin 130], longExpPrice = [Fin 130],
          shortCredit0 = [NaN, NaN], longCredit0 = [NaN],
          shortCredit = [NaN, NaN], longCredit = [NaN]\<rparr> \<and>
   (4::int) \<notin> set [22, 25] \<and> (4::int) \<notin> set [26]"
  using C10_undefined_rsi_no_signal [of young "\<lparr>date = 4, Close = Fin 149, RSI = NaN\<rparr>"]
  by (simp add: young_trades) (simp add: young_def history_def day_def upt_rec)



text \<open>
  C3. Two call spreads sold at 149 get the same credit. The first expires at 140, out of
  the money; the second expires at 160, above both strikes, and is a loss. The settlement
  loop finds the credit of the second trade at position 0, evaluates the first trade
  again, and leaves the second credit as it was: 500 is not subtracted from the losing
  trade, and the two credits that the sum adds are both the full credit.
\<close>

theorem C3_losing_trade_keeps_credit:
  "trades (twice 140 160) =
     Inr \<lparr>validDates = map date (df (twice 140 160)), callDates = [356, 357], putDates = [],
          shortPrice = [Fin 149, Fin 149], longPrice = [],
          shortStrike = [Fin 155, Fin 155], longStrike = [],
          shortExpPrice = [Fin 140, Fin 160], longExpPrice = [],
          shortCredit0 = [call_credit_149 jump_vol, call_credit_149 jump_vol], longCredit0 = [],
          shortCredit = [call_credit_149 jump_vol, call_credit_149 jump_vol],
          longCredit = []\<rparr> \<and>
   \<not> fl_gt (Fin 155) (Fin 160) \<and>
   call_credit_149 jump_vol \<noteq> fl_sub (call_credit_149 jump_vol) (Fin 500)"
  using call_credit_offset(2) by (simp add: twice_trades_profit_loss)

lemma index_self_first:
  assumes "j < length xs"
  shows "index_self xs (index_self xs j) = index_self xs j"
proof -
  let ?w = "index_self xs j"
  have wj: "?w \<le> j"
    by (rule index_self_le)
  then have wl: "?w < length xs"
    using assms by linarith
  have e: "xs ! ?w = xs ! j"
  proof (cases "?w < j")
    case True
    from index_self_hit [OF assms True] show ?thesis
      by (simp add: fl_eq_iff)
  next
    case False
    with wj show ?thesis by simp
  qed
  have "\<forall>i<?w. \<not> fl_eq (xs ! i) (xs ! ?w)"
    using index_self_before [OF assms] e by simp
  with wl show ?thesis
    by (rule index_self_own)
qed

text \<open>
  C9 (amended). Pricing: the trade at position \<open>j\<close> of a side is priced at its own close
  with the volatility of the date at position \<open>index_self prices j\<close>, the first position
  whose close equals that of \<open>j\<close>; when an earlier candidate has the same close, the
  trade gets the credit and the strike of that first one. Settlement, when no credit is
  another credit less 500: a trade whose credit equals that of an earlier trade that is
  out of the money is shadowed, the lookup lands on an earlier trade and the credit of the
  shadowed trade is never adjusted; every other trade is settled on its own data, also one
  whose credit equals that of earlier trades that were all settled as losses.
\<close>

theorem C9_value_based_lookup:
  "(price_side getData self vd dates prices = Inr (cs, ks) \<and> j < length cs \<longrightarrow>
      index_self prices j \<le> j \<and>
      (\<forall>k<j. fl_eq (prices ! k) (prices ! j) \<longrightarrow> index_self prices j \<le> k) \<and>
      (\<exists>Date c k0 k1.
          index_date vd (dates ! index_self prices j) = Inr Date \<and>
          getData self (prices ! j) Date = Inr (c, k0, k1) \<and>
          cs ! j = fl_mul c (Fin 100) \<and> ks ! j = k1) \<and>
      cs ! j = cs ! index_self prices j \<and> ks ! j = ks ! index_self prices j) \<and>
   (length cs \<le> length strikes \<and> length cs \<le> length expPrices \<and> no_offset cs \<longrightarrow>
      settle_side otm strikes expPrices cs =
        Inr (map (\<lambda>j. if shadowed otm strikes expPrices cs j then cs ! j
                       else settled_own otm strikes expPrices cs j) [0..<length cs]))"
proof (intro conjI impI)
  assume a: "price_side getData self vd dates prices = Inr (cs, ks) \<and> j < length cs"
  note pr = price_side_result [OF a [THEN conjunct1]]
  let ?w = "index_self prices j"
  from a pr have j: "j < length (take 15 prices)" "j < length prices"
    by simp_all
  show wj: "?w \<le> j"
    by (rule index_self_le)
  show "\<forall>k<j. fl_eq (prices ! k) (prices ! j) \<longrightarrow> ?w \<le> k"
    using index_self_before [OF j(2)] by (meson not_le_imp_less)
  from pr j(1) obtain Date c k0 k1 where q: "index_date vd (dates ! ?w) = Inr Date"
      "getData self (prices ! j) Date = Inr (c, k0, k1)" "cs ! j = fl_mul c (Fin 100)" "ks ! j = k1"
    by blast
  then show "\<exists>Date c k0 k1.
          index_date vd (dates ! ?w) = Inr Date \<and>
          getData self (prices ! j) Date = Inr (c, k0, k1) \<and>
          cs ! j = fl_mul c (Fin 100) \<and> ks ! j = k1"
    by blast
  have w: "?w < length (take 15 prices)"
    using wj j(1) by linarith
  have e: "prices ! ?w = prices ! j"
  proof (cases "?w < j")
    case True
    from index_self_hit [OF j(2) True] show ?thesis
      by (simp add: fl_eq_iff)
  next
    case False
    with wj show ?thesis by simp
  qed
  from pr w obtain Date' c' k0' k1' where q': "index_date vd (dates ! index_self prices ?w) = Inr Date'"
      "getData self (prices ! ?w) Date' = Inr (c', k0', k1')" "cs ! ?w = fl_mul c' (Fin 100)"
      "ks ! ?w = k1'"
    by blast
  from q'(1) q(1) have "Date' = Date"
    by (simp add: index_self_first [OF j(2)])
  with q q' e show "cs ! j = cs ! ?w" "ks ! j = ks ! ?w"
    by simp_all
next
  assume "length cs \<le> length strikes \<and> length cs \<le> length expPrices \<and> no_offset cs"
  then have "settle_side otm strikes expPrices cs =
               Inr (map (realized otm strikes expPrices cs) [0..<length cs])"
    by (simp add: settle_side_result)
  then show "settle_side otm strikes expPrices cs =
        Inr (map (\<lambda>j. if shadowed otm strikes expPrices cs j then cs ! j
                       else settled_own otm strikes expPrices cs j) [0..<length cs])"
    by (simp add: realized_def [abs_def])
qed

theorem C9_value_based_lookup_witness:
  "price_side getCallData (twice 140 160) (map date (df (twice 140 160))) [356, 357]
       [Fin 149, Fin 149] =
     Inr ([call_credit_149 jump_vol, call_credit_149 jump_vol], [Fin 155, Fin 155]) \<and>
   (1::nat) < length [call_credit_149 jump_vol, call_credit_149 jump_vol] \<and>
   index_self [Fin 149, Fin 149] 1 = 0 \<and>
   length [call_credit_149 jump_vol, call_credit_149 jump_vol] \<le> length [Fin 155, Fin 155 :: fl] \<and>
   length [call_credit_149 jump_vol, call_credit_149 jump_vol] \<le> length [Fin 140, Fin 160 :: fl] \<and>
   no_offset [call_credit_149 jump_vol, call_credit_149 jump_vol] \<and>
   shadowed fl_gt [Fin 155, Fin 155] [Fin 140, Fin 160]
     [call_credit_149 jump_vol, call_credit_149 jump_vol] 1 \<and>
   settle_side fl_gt [Fin 155, Fin 155] [Fin 140, Fin 160]
       [call_credit_149 jump_vol, call_credit_149 jump_vol] =
     Inr [call_credit_149 jump_vol, call_credit_149 jump_vol]"
  using C9_value_based_lookup [of getCallData "twice 140 160" "map date (df (twice 140 160))"
      "[356, 357]" "[Fin 149, Fin 149]" "[call_credit_149 jump_vol, call_credit_149 jump_vol]"
      "[Fin 155, Fin 155]" 1 "[Fin 155, Fin 155]" "[Fin 140, Fin 160]" fl_gt]
    trades_parts [OF twice_trades_profit_loss] call_credit_eq call_credit_offset(1)
  by (simp add: no_offset_def strikeWidth_def index_self_def shadowed_def settled_own_def
      lessThan_Suc upt_rec)

text \<open>
  C9 as stated fails: two processed call trades have equal credits, the first one is a
  loss and the second one out of the money, and each is settled on its own data.
\<close>

theorem C9_equal_credits_own_data_counterexample:
  "trades (twice 160 140) =
     Inr \<lparr>validDates = map date (df (twice 160 140)), callDates = [356, 357], putDates = [],
          shortPrice = [Fin 149, Fin 149], longPrice = [],
          shortStrike = [Fin 155, Fin 155], longStrike = [],
          shortExpPrice = [Fin 160, Fin 140], longExpPrice = [],
          shortCredit0 = [call_credit_149 jump_vol, call_credit_149 jump_vol], longCredit0 = [],
          shortCredit = [fl_sub (call_credit_149 jump_vol) (Fin 500), call_credit_149 jump_vol],
          longCredit = []\<rparr> \<and>
   fl_eq (call_credit_149 jump_vol) (call_credit_149 jump_vol) \<and>
   [fl_sub (call_credit_149 jump_vol) (Fin 500), call_credit_149 jump_vol] =
     map (settled_own fl_gt [Fin 155, Fin 155] [Fin 160, Fin 140]
            [call_credit_149 jump_vol, call_credit_149 jump_vol]) [0, 1]"
  using call_credit_eq by (simp add: twice_trades_loss_profit settled_own_def strikeWidth_def)

section \<open>Runs that return a report and runs that fail\<close>

lemma Close_at_row:
  assumes "distinct (map date frame)" and "b \<in> set frame"
  shows "Close_at frame (date b) = Inr (Close b)"
proof -
  have "find (\<lambda>x. date x = date b) frame = Some b"
    using assms
  proof (induction frame)
    case Nil
    then show ?case by simp
  next
    case (Cons a frame)
    show ?case
    proof (cases "date a = date b")
      case True
      with Cons.prems have "a = b"
        by (metis distinct_map inj_onD list.set_intros(1))
      then show ?thesis by simp
    next
      case False
      with Cons show ?thesis by auto
    qed
  qed
  then show ?thesis
    by (simp add: Close_at_def)
qed

lemma Close_at_valid:
  assumes "g \<in> set (map date frame)"
  shows "\<exists>x. Close_at frame g = Inr x"
proof -
  from assms have "find (\<lambda>b. date b = g) frame \<noteq> None"
    by (auto simp: find_None_iff)
  then show ?thesis
    by (auto simp: Close_at_def)
qed

lemma getExp_resolvable:
  assumes "resolvable frame b"
  shows "\<exists>g. getExp (map date frame) (date b) = Inr g \<and> g \<in> set (map date frame)"
proof -
  from assms obtain e where "e \<in> set (map date frame)" "first_friday (date b + 30) \<le> e"
      "e \<le> Timestamp_max"
    unfolding resolvable_def by blast
  from getExp_found [OF this] show ?thesis
    by blast
qed

lemma getExp_unresolvable:
  assumes "\<not> resolvable frame b"
  shows "getExp (map date frame) (date b) = Inl OutOfBoundsDatetime"
proof -
  from assms have "\<forall>x\<in>set (map date frame). x < first_friday (date b + 30) \<or> Timestamp_max < x"
    unfolding resolvable_def by (meson not_le_imp_less)
  then show ?thesis
    by (rule getExp_fails)
qed

lemma candidates_step:
  "candidates frame vd (i # rest) (dates, prices, expPrices) =
     (case Close_at frame i of
        Inl e \<Rightarrow> Inl e
      | Inr c \<Rightarrow>
          if in_band c then
            (case getExp vd i of
               Inl e \<Rightarrow> Inl e
             | Inr g \<Rightarrow>
                 (case Close_at frame g of
                    Inl e \<Rightarrow> Inl e
                  | Inr x \<Rightarrow>
                      candidates frame vd rest (dates @ [i], prices @ [c], expPrices @ [x])))
          else candidates frame vd rest (dates, prices, expPrices))"
  by (cases "Close_at frame i") (simp_all add: in_band_def)

lemma candidates_total:
  assumes "distinct (map date frame)" and "set bs \<subseteq> set frame"
    and "\<forall>b\<in>set bs. in_band (Close b) \<longrightarrow> resolvable frame b"
  shows "\<exists>ps es. candidates frame (map date frame) (map date bs) (ds0, ps0, es0) =
           Inr (ds0 @ map date (filter (\<lambda>b. in_band (Close b)) bs), ps, es)"
  using assms(2,3)
proof (induction bs arbitrary: ds0 ps0 es0)
  case Nil
  then show ?case by simp
next
  case (Cons b bs)
  from Cons.prems have b: "b \<in> set frame" and r: "set bs \<subseteq> set frame"
    and h: "\<forall>b\<in>set bs. in_band (Close b) \<longrightarrow> resolvable frame b"
    by simp_all
  note c = Close_at_row [OF assms(1) b]
  show ?case
  proof (cases "in_band (Close b)")
    case False
    with c Cons.IH [OF r h, of ds0 ps0 es0] show ?thesis
      by (simp add: candidates_step del: candidates.simps)
  next
    case True
    with Cons.prems have "resolvable frame b" by simp
    from getExp_resolvable [OF this] obtain g where g: "getExp (map date frame) (date b) = Inr g"
        "g \<in> set (map date frame)"
      by blast
    from Close_at_valid [OF g(2)] obtain x where x: "Close_at frame g = Inr x"
      by blast
    from Cons.IH [OF r h, of "ds0 @ [date b]" "ps0 @ [Close b]" "es0 @ [x]"] c g(1) x True
    show ?thesis
      by (simp add: candidates_step del: candidates.simps)
  qed
qed

lemma candidates_out_of_bounds:
  assumes "distinct (map date frame)" and "set bs \<subseteq> set frame"
    and "\<exists>b\<in>set bs. in_band (Close b) \<and> \<not> resolvable frame b"
  shows "candidates frame (map date frame) (map date bs) (ds0, ps0, es0) = Inl OutOfBoundsDatetime"
  using assms(2,3)
proof (induction bs arbitrary: ds0 ps0 es0)
  case Nil
  then show ?case by simp
next
  case (Cons b bs)
  from Cons.prems have b: "b \<in> set frame" and r: "set bs \<subseteq> set frame"
    by simp_all
  note c = Close_at_row [OF assms(1) b]
  show ?case
  proof (cases "in_band (Close b)")
    case False
    with Cons.prems have "\<exists>b\<in>set bs. in_band (Close b) \<and> \<not> resolvable frame b"
      by auto
    from Cons.IH [OF r this, of ds0 ps0 es0] c False show ?thesis
      by (simp add: candidates_step del: candidates.simps)
  next
    case True
    show ?thesis
    proof (cases "resolvable frame b")
      case False
      from getExp_unresolvable [OF this] c True show ?thesis
        by (simp add: candidates_step del: candidates.simps)
    next
      case res: True
      with Cons.prems have h: "\<exists>b\<in>set bs. in_band (Close b) \<and> \<not> resolvable frame b"
        by auto
      from getExp_resolvable [OF res] obtain g where g: "getExp (map date frame) (date b) = Inr g"
          "g \<in> set (map date frame)"
        by blast
      from Close_at_valid [OF g(2)] obtain x where x: "Close_at frame g = Inr x"
        by blast
      from Cons.IH [OF r h, of "ds0 @ [date b]" "ps0 @ [Close b]" "es0 @ [x]"] c g(1) x True
      show ?thesis
        by (simp add: candidates_step del: candidates.simps)
    qed
  qed
qed

lemma index_date_found:
  assumes "d \<in> set vd"
  shows "\<exists>p. index_date vd d = Inr p \<and> p < length vd"
proof -
  from assms have "length (takeWhile (\<lambda>x. x \<noteq> d) vd) < length vd"
    by (induction vd) auto
  with assms show ?thesis
    by (simp add: index_date_def)
qed

lemma price_loop_ok:
  assumes "length dates = length prices" and "set dates \<subseteq> set vd"
    and "length vd \<le> length (getVol self)"
    and "\<forall>S d. d < length (getVol self) \<longrightarrow> (\<exists>q. getData self S d = Inr q)"
    and "\<forall>j\<in>set js. j < length prices"
  shows "\<exists>cs' ks'. price_loop getData self vd dates prices js (cs, ks) = Inr (cs', ks')"
  using assms(5)
proof (induction js arbitrary: cs ks)
  case Nil
  then show ?case by simp
next
  case (Cons j js)
  let ?w = "index_self prices j"
  from Cons.prems have j: "j < length prices" and r: "\<forall>j\<in>set js. j < length prices"
    by simp_all
  have w: "?w < length dates"
    using index_self_le [of prices j] j assms(1) by linarith
  then have "dates ! ?w \<in> set vd"
    using assms(2) nth_mem by blast
  from index_date_found [OF this] obtain p where p: "index_date vd (dates ! ?w) = Inr p"
      "p < length vd"
    by blast
  then have "p < length (getVol self)"
    using assms(3) by linarith
  with assms(4) obtain q where q: "getData self (prices ! j) p = Inr q"
    by blast
  obtain c k0 k1 where t: "q = (c, k0, k1)"
    by (cases q) auto
  from Cons.IH [OF r, of "cs @ [fl_mul c (Fin 100)]" "ks @ [k1]"] w p(1) q t show ?case
    by (simp add: Let_def)
qed

lemma price_side_ok:
  assumes "length dates = length prices" and "set dates \<subseteq> set vd"
    and "length vd \<le> length (getVol self)"
    and "\<forall>S d. d < length (getVol self) \<longrightarrow> (\<exists>q. getData self S d = Inr q)"
  shows "\<exists>cs ks. price_side getData self vd dates prices = Inr (cs, ks)"
  unfolding price_side_def
  using price_loop_ok [where getData = getData and self = self and js = "[0..<length (take 15 prices)]"
      and cs = "[]" and ks = "[]", OF assms]
  by simp

lemma settle_loop_ok:
  assumes "length cs \<le> length ks" and "length cs \<le> length es"
    and "\<forall>j\<in>set js. j < length cs"
  shows "\<exists>cs'. settle_loop otm ks es js cs = Inr cs' \<and> length cs' = length cs"
  using assms
proof (induction js arbitrary: cs)
  case Nil
  then show ?case by simp
next
  case (Cons j js)
  let ?k = "index_self cs j"
  from Cons.prems have j: "j < length cs" and r: "\<forall>j\<in>set js. j < length cs"
    by simp_all
  have k: "?k < length ks" "?k < length es"
    using index_self_le [of cs j] j Cons.prems(1,2) by linarith+
  show ?case
  proof (cases "otm (ks ! ?k) (es ! ?k)")
    case True
    with Cons.IH [OF Cons.prems(1,2) r] k show ?thesis
      by (simp add: Let_def)
  next
    case False
    let ?cs = "cs[?k := fl_sub (cs ! ?k) strikeWidth]"
    have "length ?cs \<le> length ks" "length ?cs \<le> length es" "\<forall>j\<in>set js. j < length ?cs"
      using Cons.prems(1,2) r by simp_all
    from Cons.IH [OF this] False k show ?thesis
      by (simp add: Let_def)
  qed
qed

lemma settle_side_ok:
  assumes "length cs \<le> length ks" and "length cs \<le> length es"
  shows "\<exists>cs'. settle_side otm ks es cs = Inr cs' \<and> length cs' = length cs"
  unfolding settle_side_def
  by (rule settle_loop_ok [OF assms]) simp

lemma getData_total:
  assumes "d < length (getVol self)"
  shows "\<exists>q. getCallData self S d = Inr q" "\<exists>q. getPutData self S d = Inr q"
proof -
  show "\<exists>q. getCallData self S d = Inr q"
    unfolding getCallData_def call_legs_two [OF assms] by simp
  show "\<exists>q. getPutData self S d = Inr q"
    unfolding getPutData_def put_legs_two [OF assms] by simp
qed

lemma scan_lists:
  "scan frame ([], [], []) =
     (map date frame,
      map date (filter (\<lambda>b. fl_gt (RSI b) (Fin 70)) frame),
      map date (filter (\<lambda>b. \<not> fl_gt (RSI b) (Fin 70) \<and> fl_lt (RSI b) (Fin 30)) frame))"
  by (simp add: scan_result)

lemma trades_out_of_bounds:
  assumes d: "distinct (map date (df self))"
    and bad: "\<exists>b\<in>set (call_candidates (df self) @ put_candidates (df self)). \<not> resolvable (df self) b"
  shows "trades self = Inl OutOfBoundsDatetime"
proof -
  let ?f = "df self"
  let ?S = "filter (\<lambda>b. fl_gt (RSI b) (Fin 70)) ?f"
  let ?L = "filter (\<lambda>b. \<not> fl_gt (RSI b) (Fin 70) \<and> fl_lt (RSI b) (Fin 30)) ?f"
  have sub: "set ?S \<subseteq> set ?f" "set ?L \<subseteq> set ?f"
    by auto
  show ?thesis
  proof (cases "\<exists>b\<in>set ?S. in_band (Close b) \<and> \<not> resolvable ?f b")
    case True
    from candidates_out_of_bounds [OF d sub(1) True, of "[]" "[]" "[]"] show ?thesis
      by (simp add: trades_def scan_lists)
  next
    case False
    then have ok: "\<forall>b\<in>set ?S. in_band (Close b) \<longrightarrow> resolvable ?f b"
      by blast
    from bad False have "\<exists>b\<in>set ?L. in_band (Close b) \<and> \<not> resolvable ?f b"
      by (auto simp: call_candidates_def put_candidates_def)
    from candidates_out_of_bounds [OF d sub(2) this, of "[]" "[]" "[]"]
      candidates_total [OF d sub(1) ok, of "[]" "[]" "[]"]
    show ?thesis
      by (auto simp: trades_def scan_lists)
  qed
qed

lemma trades_total:
  assumes d: "distinct (map date (df self))"
    and v: "length (df self) \<le> length (getVol self)"
    and ok: "\<forall>b\<in>set (call_candidates (df self) @ put_candidates (df self)). resolvable (df self) b"
  shows "\<exists>bk. trades self = Inr bk \<and>
              callDates bk = map date (call_candidates (df self)) \<and>
              putDates bk = map date (put_candidates (df self)) \<and>
              length (shortPrice bk) = length (callDates bk) \<and>
              length (longPrice bk) = length (putDates bk) \<and>
              length (shortCredit bk) = length (take 15 (shortPrice bk)) \<and>
              length (longCredit bk) = length (take 15 (longPrice bk))"
proof -
  let ?f = "df self"
  let ?vd = "map date ?f"
  let ?S = "filter (\<lambda>b. fl_gt (RSI b) (Fin 70)) ?f"
  let ?L = "filter (\<lambda>b. \<not> fl_gt (RSI b) (Fin 70) \<and> fl_lt (RSI b) (Fin 30)) ?f"
  have sub: "set ?S \<subseteq> set ?f" "set ?L \<subseteq> set ?f"
    by auto
  have cS: "filter (\<lambda>b. in_band (Close b)) ?S = call_candidates ?f"
    and cL: "filter (\<lambda>b. in_band (Close b)) ?L = put_candidates ?f"
    by (simp_all add: call_candidates_def put_candidates_def conj_commute)
  from ok have okS: "\<forall>b\<in>set ?S. in_band (Close b) \<longrightarrow> resolvable ?f b"
    and okL: "\<forall>b\<in>set ?L. in_band (Close b) \<longrightarrow> resolvable ?f b"
    by (auto simp: call_candidates_def put_candidates_def)
  from candidates_total [OF d sub(1) okS, of "[]" "[]" "[]"] have
    "\<exists>sp se. candidates ?f ?vd (map date ?S) ([], [], []) =
        Inr (map date (call_candidates ?f), sp, se)"
    unfolding cS append_Nil .
  then obtain sp se where
    c: "candidates ?f ?vd (map date ?S) ([], [], []) = Inr (map date (call_candidates ?f), sp, se)"
    by blast
  from candidates_total [OF d sub(2) okL, of "[]" "[]" "[]"] have
    "\<exists>lp le. candidates ?f ?vd (map date ?L) ([], [], []) =
        Inr (map date (put_candidates ?f), lp, le)"
    unfolding cL append_Nil .
  then obtain lp le where
    p: "candidates ?f ?vd (map date ?L) ([], [], []) = Inr (map date (put_candidates ?f), lp, le)"
    by blast
  let ?cd = "map date (call_candidates ?f)"
  let ?pd = "map date (put_candidates ?f)"
  from candidates_shape [OF c] have shc: "length ?cd = length sp" "length se = length sp"
    by simp_all
  from candidates_shape [OF p] have shp: "length ?pd = length lp" "length le = length lp"
    by simp_all
  have inc: "set ?cd \<subseteq> set ?vd" "set ?pd \<subseteq> set ?vd"
    by (auto simp: call_candidates_def put_candidates_def)
  have lv: "length ?vd \<le> length (getVol self)"
    using v by simp
  have tc: "\<forall>S d. d < length (getVol self) \<longrightarrow> (\<exists>q. getCallData self S d = Inr q)"
    and tp: "\<forall>S d. d < length (getVol self) \<longrightarrow> (\<exists>q. getPutData self S d = Inr q)"
    using getData_total by blast+
  from price_side_ok [where getData = getCallData and self = self, OF shc(1) inc(1) lv tc]
  obtain sc ss where pc: "price_side getCallData self ?vd ?cd sp = Inr (sc, ss)"
    by blast
  from price_side_ok [where getData = getPutData and self = self, OF shp(1) inc(2) lv tp]
  obtain lc ls where pp: "price_side getPutData self ?vd ?pd lp = Inr (lc, ls)"
    by blast
  from price_side_result [OF pc] have lsc: "length sc = length (take 15 sp)"
      "length ss = length (take 15 sp)"
    by simp_all
  from price_side_result [OF pp] have llc: "length lc = length (take 15 lp)"
      "length ls = length (take 15 lp)"
    by simp_all
  have "length sc \<le> length ss" "length sc \<le> length se"
    using lsc shc(2) by simp_all
  from settle_side_ok [OF this, of fl_gt] obtain sc' where s1: "settle_side fl_gt ss se sc = Inr sc'"
      "length sc' = length sc"
    by blast
  have "length lc \<le> length ls" "length lc \<le> length le"
    using llc shp(2) by simp_all
  from settle_side_ok [OF this, of fl_lt] obtain lc' where s2: "settle_side fl_lt ls le lc = Inr lc'"
      "length lc' = length lc"
    by blast
  let ?bk = "\<lparr>validDates = ?vd, callDates = ?cd, putDates = ?pd, shortPrice = sp, longPrice = lp,
          shortStrike = ss, longStrike = ls, shortExpPrice = se, longExpPrice = le,
          shortCredit0 = sc, longCredit0 = lc, shortCredit = sc', longCredit = lc'\<rparr>"
  have "trades self = Inr ?bk"
    using c p pc pp s1(1) s2(1) by (simp add: trades_def scan_lists priced_and_settled_def)
  moreover have "length (shortPrice ?bk) = length (callDates ?bk)"
      "length (longPrice ?bk) = length (putDates ?bk)"
      "length (shortCredit ?bk) = length (take 15 (shortPrice ?bk))"
      "length (longCredit ?bk) = length (take 15 (longPrice ?bk))"
    using shc(1) shp(1) s1(2) s2(2) lsc(1) llc(1) by simp_all
  ultimately show ?thesis
    by (intro exI [of _ ?bk]) simp
qed

text \<open>
  C2 (amended). On a structurally valid input (dates strictly ascending, a volatility
  series as long as the frame) the backtest returns a complete report, with 15 settled
  trades on each side, their exact sum as PnL and a collateral of 15000, when every
  qualifying candidate has a trading date on or after its target Friday and each side has
  at least 16 qualifying candidates. No failure of a candidate is recovered: when some
  qualifying candidate has no trading date on or after its target Friday, the candidate is
  not excluded and the whole run fails, with the OutOfBoundsDatetime that the search for
  its expiration date raises at the last day of the timestamps.
\<close>

theorem C2_report_or_failed_run:
  assumes "sorted_wrt (<) (map date (df self))" and "length (df self) \<le> length (getVol self)"
  shows "((\<forall>b\<in>set (call_candidates (df self) @ put_candidates (df self)). resolvable (df self) b) \<and>
           16 \<le> length (call_candidates (df self)) \<and> 16 \<le> length (put_candidates (df self)) \<longrightarrow>
           (\<exists>bk. trades self = Inr bk \<and>
                 length (shortCredit bk) = 15 \<and> length (longCredit bk) = 15 \<and>
                 runBackTest self =
                   Inr \<lparr>pnl = fl_add (fl_sum (shortCredit bk)) (fl_sum (longCredit bk)),
                        collateral = Fin 15000\<rparr>)) \<and>
         ((\<exists>b\<in>set (call_candidates (df self) @ put_candidates (df self)). \<not> resolvable (df self) b) \<longrightarrow>
           runBackTest self = Inl OutOfBoundsDatetime)"
proof (intro conjI impI)
  from assms(1) have d: "distinct (map date (df self))"
    by (simp add: strict_sorted_iff)
  {
    assume a: "(\<forall>b\<in>set (call_candidates (df self) @ put_candidates (df self)). resolvable (df self) b) \<and>
           16 \<le> length (call_candidates (df self)) \<and> 16 \<le> length (put_candidates (df self))"
    from trades_total [OF d assms(2) a [THEN conjunct1]] obtain bk where bk:
      "trades self = Inr bk"
      "callDates bk = map date (call_candidates (df self))"
      "putDates bk = map date (put_candidates (df self))"
      "length (shortPrice bk) = length (callDates bk)"
      "length (longPrice bk) = length (putDates bk)"
      "length (shortCredit bk) = length (take 15 (shortPrice bk))"
      "length (longCredit bk) = length (take 15 (longPrice bk))"
      by blast
    from a bk have n: "16 \<le> length (callDates bk)" "16 \<le> length (putDates bk)"
        "length (take 15 (shortPrice bk)) = 15" "length (take 15 (longPrice bk)) = 15"
      by simp_all
    then have "callDates bk \<noteq> []" "putDates bk \<noteq> []"
      by auto
    with n have "report_of bk =
        Inr \<lparr>pnl = fl_add (fl_sum (shortCredit bk)) (fl_sum (longCredit bk)), collateral = Fin 15000\<rparr>"
      by (simp add: report_of_def Let_def strikeWidth_def)
    with bk n show "\<exists>bk. trades self = Inr bk \<and>
                 length (shortCredit bk) = 15 \<and> length (longCredit bk) = 15 \<and>
                 runBackTest self =
                   Inr \<lparr>pnl = fl_add (fl_sum (shortCredit bk)) (fl_sum (longCredit bk)),
                        collateral = Fin 15000\<rparr>"
      by (intro exI [of _ bk]) (simp add: runBackTest_def)
  }
  {
    assume "\<exists>b\<in>set (call_candidates (df self) @ put_candidates (df self)). \<not> resolvable (df self) b"
    from trades_out_of_bounds [OF d this] show "runBackTest self = Inl OutOfBoundsDatetime"
      by (simp add: runBackTest_def)
  }
qed

lemma history_sorted: "sorted_wrt (<) (map date (history closes rsis m n))"
proof -
  have "map date (history closes rsis m n) = map day [m..<n]"
    by (simp add: history_def comp_def)
  moreover have "sorted_wrt (<) (map day [m..<n])"
    unfolding sorted_wrt_map
    by (rule sorted_wrt_mono_rel [of _ "(<)"]) (simp_all add: day_mono)
  ultimately show ?thesis
    by simp
qed

lemma busy_calls: "length (call_candidates (df busy)) = 16"
  by (simp add: busy_def history_def upt_rec call_candidates_def in_band_def fl_lt_def)

lemma busy_puts: "length (put_candidates (df busy)) = 16"
  by (simp add: busy_def history_def upt_rec put_candidates_def in_band_def fl_lt_def)

lemma busy_resolvable:
  "list_all (resolvable (df busy)) (call_candidates (df busy) @ put_candidates (df busy))"
  by (simp add: busy_def history_def upt_rec call_candidates_def put_candidates_def in_band_def
      fl_lt_def resolvable_def day_def first_friday_def weekday_def Timestamp_max_def)

lemma late_unresolvable:
  "list_ex (\<lambda>b. \<not> resolvable (df late) b) (call_candidates (df late) @ put_candidates (df late))"
  by (simp add: late_def history_def upt_rec call_candidates_def put_candidates_def in_band_def
      fl_lt_def resolvable_def day_def first_friday_def weekday_def Timestamp_max_def)

theorem C2_report_or_failed_run_witness:
  "sorted_wrt (<) (map date (df busy)) \<and> length (df busy) \<le> length (getVol busy) \<and>
   list_all (resolvable (df busy)) (call_candidates (df busy) @ put_candidates (df busy)) \<and>
   length (call_candidates (df busy)) = 16 \<and> length (put_candidates (df busy)) = 16 \<and>
   (\<exists>r. runBackTest busy = Inr r \<and> collateral r = Fin 15000) \<and>
   sorted_wrt (<) (map date (df late)) \<and> length (df late) \<le> length (getVol late) \<and>
   list_ex (\<lambda>b. \<not> resolvable (df late) b) (call_candidates (df late) @ put_candidates (df late)) \<and>
   runBackTest late = Inl OutOfBoundsDatetime"
proof -
  have sb: "sorted_wrt (<) (map date (df busy))" and sl: "sorted_wrt (<) (map date (df late))"
    by (simp_all add: busy_def late_def history_sorted)
  have lb: "length (df busy) \<le> length (getVol busy)" and ll: "length (df late) \<le> length (getVol late)"
    by (simp_all add: busy_def late_def length_history)
  from busy_resolvable have rb:
    "\<forall>b\<in>set (call_candidates (df busy) @ put_candidates (df busy)). resolvable (df busy) b"
    by (simp only: list_all_iff)
  from late_unresolvable have rl:
    "\<exists>b\<in>set (call_candidates (df late) @ put_candidates (df late)). \<not> resolvable (df late) b"
    by (simp only: list_ex_iff)
  from C2_report_or_failed_run [OF sb lb] rb busy_calls busy_puts
  have "\<exists>r. runBackTest busy = Inr r \<and> collateral r = Fin 15000"
    by auto
  moreover from C2_report_or_failed_run [OF sl ll] rl have "runBackTest late = Inl OutOfBoundsDatetime"
    by blast
  ultimately show ?thesis
    using sb sl lb ll busy_resolvable late_unresolvable busy_calls busy_puts by simp
qed

text \<open>
  C2 as stated fails: on a valid history whose last bar is a call signal the run fails with
  OutOfBoundsDatetime, the candidate without an expiration date is not excluded; and on a
  valid history with two call candidates and one put candidate, all with an expiration,
  the run ends in an IndexError.
\<close>

theorem C2_no_report_counterexample:
  "df late \<noteq> [] \<and> sorted_wrt (<) (map date (df late)) \<and>
   runBackTest late = Inl OutOfBoundsDatetime \<and>
   df young \<noteq> [] \<and> sorted_wrt (<) (map date (df young)) \<and>
   runBackTest young = Inl IndexError"
proof -
  have sl: "sorted_wrt (<) (map date (df late))" and sy: "sorted_wrt (<) (map date (df young))"
    by (simp_all add: late_def young_def history_sorted)
  then have d: "distinct (map date (df late))"
    by (simp add: strict_sorted_iff)
  from late_unresolvable have
    "\<exists>b\<in>set (call_candidates (df late) @ put_candidates (df late)). \<not> resolvable (df late) b"
    by (simp only: list_ex_iff)
  from trades_out_of_bounds [OF d this] have "runBackTest late = Inl OutOfBoundsDatetime"
    by (simp add: runBackTest_def)
  moreover have "runBackTest young = Inl IndexError"
    by (simp add: runBackTest_def young_trades report_of_def)
  moreover have "df late \<noteq> []" "df young \<noteq> []"
    by (simp_all add: late_def young_def history_def upt_rec)
  ultimately show ?thesis
    using sl sy by simp
qed

end
